theory Spec2Isabelle
  imports Main "HOL-Library.AList" "HOL-Library.Sublist" "HOL-Library.Multiset"
begin

section \<open>Data model\<close>

text \<open>
  The exceptions the program can raise. \<open>KeyError\<close> carries the missing key.
  \<open>ParseError\<close> stands for whatever \<^verbatim>\<open>ET.parse\<close> raises on a file it cannot read.
\<close>

datatype error = KeyError string | IndexError | AttributeError | ValueError | ParseError

text \<open>
  A Python \<^verbatim>\<open>dict\<close> from strings to strings, in insertion order: an association list.
  \<^verbatim>\<open>k in d\<close> is \<open>has_key\<close>, \<^verbatim>\<open>d[k]\<close> is \<open>getitem\<close> (it raises \<^verbatim>\<open>KeyError\<close>),
  \<^verbatim>\<open>d[k] = v\<close> is \<open>AList.update\<close> (in place for a known key, at the end for a new one).
\<close>

type_synonym pydict = "(string \<times> string) list"

definition has_key :: "pydict \<Rightarrow> string \<Rightarrow> bool" where
  "has_key d k = (k \<in> set (map fst d))"

definition getitem :: "pydict \<Rightarrow> string \<Rightarrow> error + string" where
  "getitem d k = (case map_of d k of None \<Rightarrow> Inl (KeyError k) | Some v \<Rightarrow> Inr v)"

text \<open>An element of an ElementTree document: tag, attribute dictionary, children.\<close>

datatype xml = Element (tag: string) (attrib: pydict) (children: "xml list")

text \<open>\<^verbatim>\<open>root.iter(tag)\<close>: the element and everything below it, in document order,
  restricted to one tag.\<close>

fun iter_all :: "xml \<Rightarrow> xml list" where
  "iter_all (Element t a cs) = Element t a cs # concat (map iter_all cs)"

definition iter :: "xml \<Rightarrow> string \<Rightarrow> xml list" where
  "iter root t = filter (\<lambda>e. tag e = t) (iter_all root)"

text \<open>
  What the program reads of a Parmed structure: the name of each atom's atom type, and
  for each bond, angle, RB torsion and improper the \<^verbatim>\<open>type\<close> of its atoms
  \<^verbatim>\<open>atom1\<close>, \<^verbatim>\<open>atom2\<close>, ... in that order.
\<close>

record pmd_structure =
  atoms :: "string list"
  bonds :: "string list list"
  angles :: "string list list"
  rb_torsions :: "string list list"
  impropers :: "string list list"

datatype py_object = Structure pmd_structure | Other_object

datatype topo_type = Bond | Angle | Proper | Improper

section \<open>Helpers\<close>

definition dict_to_xml :: "string \<Rightarrow> pydict \<Rightarrow> xml" where
  "dict_to_xml t temp_dict = Element t temp_dict []"

text \<open>The decimal digits of a number, as the f-string \<^verbatim>\<open>f'class{i}'\<close> formats it.\<close>

definition digit_char :: "nat \<Rightarrow> char" where
  "digit_char d = ''0123456789'' ! d"

fun str_nat :: "nat \<Rightarrow> string" where
  "str_nat n = (if n < 10 then [digit_char n] else str_nat (n div 10) @ [digit_char (n mod 10)])"

declare str_nat.simps [simp del]

definition class_key :: "nat \<Rightarrow> string" where
  "class_key i = ''class'' @ str_nat i"

definition type_key :: "nat \<Rightarrow> string" where
  "type_key i = ''type'' @ str_nat i"

text \<open>\<^verbatim>\<open>_identify_schema\<close>: one pass over the positions \<open>1..nparams\<close>.\<close>

definition identify_schema :: "pydict \<Rightarrow> nat \<Rightarrow> string list \<times> nat" where
  "identify_schema attrib_dict nparams =
     foldl (\<lambda>(schema, weight) i.
              if has_key attrib_dict (class_key i)
              then (schema @ [class_key i], weight + 1)
              else (schema @ [type_key i], weight))
           ([], 0) [1..<nparams + 1]"

text \<open>Python's \<^verbatim>\<open>sub in s\<close> on strings.\<close>

fun is_substring :: "string \<Rightarrow> string \<Rightarrow> bool" where
  "is_substring sub [] = (sub = [])"
| "is_substring sub (c # cs) = (prefix sub (c # cs) \<or> is_substring sub cs)"

definition switch_class_type :: "string \<Rightarrow> string \<Rightarrow> string \<Rightarrow> string" where
  "switch_class_type schema atom_class atom_type =
     (if is_substring ''class'' schema then atom_class else atom_type)"

section \<open>The tables of \<^verbatim>\<open>_topology_match\<close>\<close>

fun xml_section :: "topo_type \<Rightarrow> string" where
  "xml_section Bond = ''HarmonicBondForce''"
| "xml_section Angle = ''HarmonicAngleForce''"
| "xml_section Proper = ''RBTorsionForce''"
| "xml_section Improper = ''PeriodicTorsionForce''"

fun parmed_section :: "topo_type \<Rightarrow> pmd_structure \<Rightarrow> string list list" where
  "parmed_section Bond s = bonds s"
| "parmed_section Angle s = angles s"
| "parmed_section Proper s = rb_torsions s"
| "parmed_section Improper s = impropers s"

fun topo_tag :: "topo_type \<Rightarrow> string" where
  "topo_tag Bond = ''Bond''"
| "topo_tag Angle = ''Angle''"
| "topo_tag Proper = ''Proper''"
| "topo_tag Improper = ''Improper''"

fun sequences :: "topo_type \<Rightarrow> nat list list" where
  "sequences Bond = [[0,1], [1,0]]"
| "sequences Angle = [[0,1,2], [2,1,0]]"
| "sequences Proper = [[0,1,2,3], [3,2,1,0]]"
| "sequences Improper = [[0,1,2,3], [0,1,3,2], [0,2,1,3], [0,2,3,1], [0,3,1,2], [0,3,2,1]]"

section \<open>Enumerating the interactions of one kind\<close>

text \<open>\<^verbatim>\<open>[xs[i] for i in seq]\<close>: an index out of range raises \<^verbatim>\<open>IndexError\<close>.\<close>

fun reorder :: "'a list \<Rightarrow> nat list \<Rightarrow> error + 'a list" where
  "reorder xs [] = Inr []"
| "reorder xs (i # is) =
     (if i < length xs
      then (case reorder xs is of Inl e \<Rightarrow> Inl e | Inr ys \<Rightarrow> Inr (xs ! i # ys))
      else Inl IndexError)"

text \<open>The types of \<^verbatim>\<open>atom1 .. atom{n_params}\<close> of one element; an element with fewer
  atoms has no such attribute.\<close>

definition get_topo_af :: "string list \<Rightarrow> nat \<Rightarrow> error + string list" where
  "get_topo_af topo_element n_params =
     (if n_params \<le> length topo_element then Inr (take n_params topo_element)
      else Inl AttributeError)"

text \<open>The loop over the equivalent sequences, which stops at the first one found.\<close>

fun is_unique :: "string list \<Rightarrow> string list list \<Rightarrow> nat list list \<Rightarrow> error + bool" where
  "is_unique topo_af topo_by_type [] = Inr True"
| "is_unique topo_af topo_by_type (seq # seqs) =
     (case reorder topo_af seq of
        Inl e \<Rightarrow> Inl e
      | Inr p \<Rightarrow> if p \<in> set topo_by_type then Inr False
                else is_unique topo_af topo_by_type seqs)"

fun enumerate_loop ::
  "topo_type \<Rightarrow> nat \<Rightarrow> string list list \<Rightarrow> string list list \<Rightarrow> error + string list list" where
  "enumerate_loop topo_type n_params topo_by_type [] = Inr topo_by_type"
| "enumerate_loop topo_type n_params topo_by_type (topo_element # rest) =
     (case get_topo_af topo_element n_params of
        Inl e \<Rightarrow> Inl e
      | Inr topo_af \<Rightarrow>
          (case is_unique topo_af topo_by_type (sequences topo_type) of
             Inl e \<Rightarrow> Inl e
           | Inr unique \<Rightarrow>
               enumerate_loop topo_type n_params
                 (if unique then topo_by_type @ [topo_af] else topo_by_type) rest))"

definition enumerate_topo :: "topo_type \<Rightarrow> nat \<Rightarrow> string list list \<Rightarrow> error + string list list" where
  "enumerate_topo topo_type n_params topo_temp = enumerate_loop topo_type n_params [] topo_temp"

section \<open>Classifying and sorting the candidate records\<close>

text \<open>The dictionary \<^verbatim>\<open>{'schema': .., 'weight': .., 'attrib': ..}\<close> built for each record.\<close>

record topo_entry =
  schema :: "string list"
  weight :: nat
  topo_attrib :: pydict

definition classify :: "nat \<Rightarrow> xml \<Rightarrow> topo_entry" where
  "classify n_params topo =
     (case identify_schema (attrib topo) n_params of
        (s, w) \<Rightarrow> \<lparr>schema = s, weight = w, topo_attrib = attrib topo\<rparr>)"

definition topo_entry_temp :: "xml \<Rightarrow> topo_type \<Rightarrow> nat \<Rightarrow> topo_entry list" where
  "topo_entry_temp xml_root topo_type n_params =
     map (classify n_params) (iter xml_root (topo_tag topo_type))"

text \<open>\<^verbatim>\<open>sorted(.., key=weight)\<close> is a stable sort, as \<open>sort_key\<close> is.\<close>

definition topo_entries :: "xml \<Rightarrow> topo_type \<Rightarrow> nat \<Rightarrow> topo_entry list" where
  "topo_entries xml_root topo_type n_params =
     sort_key weight (topo_entry_temp xml_root topo_type n_params)"

section \<open>Matching interactions against the records\<close>

text \<open>The matcher's state: the collections already recorded and the output document.\<close>

record match_state =
  unique_collection :: "string list list"
  blank_root :: xml

text \<open>\<^verbatim>\<open>for child in blank_root: if child.tag == section: child.append(elem)\<close>\<close>

definition append_to_section :: "string \<Rightarrow> xml \<Rightarrow> xml \<Rightarrow> xml" where
  "append_to_section section elem root =
     Element (tag root) (attrib root)
       (map (\<lambda>child. if tag child = section
                      then Element (tag child) (attrib child) (children child @ [elem])
                      else child)
            (children root))"

text \<open>
  The loop over the positions of one reordered interaction. Position \<open>i\<close> reads
  \<^verbatim>\<open>schema[i]\<close>, \<^verbatim>\<open>topo[schema[i]]\<close> and \<^verbatim>\<open>atom_type_dict[seq]\<close>, in this order, and each
  read can raise; no position is skipped when an earlier one did not match.
\<close>

fun position_loop ::
  "pydict \<Rightarrow> pydict \<Rightarrow> string list \<Rightarrow> nat \<Rightarrow> string list \<Rightarrow> bool list \<Rightarrow> string list
     \<Rightarrow> error + (bool list \<times> string list)" where
  "position_loop atom_type_dict topo sch i [] match collection = Inr (match, collection)"
| "position_loop atom_type_dict topo sch i (seq # rest) match collection =
     (if i < length sch then
        (case getitem topo (sch ! i) of
           Inl e \<Rightarrow> Inl e
         | Inr v \<Rightarrow>
             (case getitem atom_type_dict seq of
                Inl e \<Rightarrow> Inl e
              | Inr atom_class \<Rightarrow>
                  position_loop atom_type_dict topo sch (i + 1) rest
                    (match @ [v = switch_class_type (sch ! i) atom_class seq])
                    (collection @ [v])))
      else Inl IndexError)"

text \<open>What a full match does: the record is emitted unless its collection was recorded before.\<close>

definition record_match :: "topo_type \<Rightarrow> string list \<Rightarrow> pydict \<Rightarrow> match_state \<Rightarrow> match_state" where
  "record_match topo_type collection topo st =
     (if collection \<notin> set (unique_collection st)
      then st\<lparr>unique_collection := unique_collection st @ [collection],
              blank_root := append_to_section (xml_section topo_type)
                              (dict_to_xml (topo_tag topo_type) topo) (blank_root st)\<rparr>
      else st)"

text \<open>The loop over the orderings for one record; the flag is \<^verbatim>\<open>not_matched\<close>.\<close>

fun sequence_loop ::
  "pydict \<Rightarrow> topo_type \<Rightarrow> string list \<Rightarrow> topo_entry \<Rightarrow> nat list list \<Rightarrow> match_state \<times> bool
     \<Rightarrow> error + (match_state \<times> bool)" where
  "sequence_loop atom_type_dict topo_type topo_element topo_entry [] (st, not_matched) =
     Inr (st, not_matched)"
| "sequence_loop atom_type_dict topo_type topo_element topo_entry (sequence # rest) (st, not_matched) =
     (if not_matched then
        (case reorder topo_element sequence of
           Inl e \<Rightarrow> Inl e
         | Inr seq_test \<Rightarrow>
             (case position_loop atom_type_dict (topo_attrib topo_entry) (schema topo_entry)
                     0 seq_test [] [] of
                Inl e \<Rightarrow> Inl e
              | Inr (match, collection) \<Rightarrow>
                  if list_all id match
                  then sequence_loop atom_type_dict topo_type topo_element topo_entry rest
                         (record_match topo_type collection (topo_attrib topo_entry) st, False)
                  else sequence_loop atom_type_dict topo_type topo_element topo_entry rest
                         (st, not_matched)))
      else sequence_loop atom_type_dict topo_type topo_element topo_entry rest (st, not_matched))"

fun entry_loop ::
  "pydict \<Rightarrow> topo_type \<Rightarrow> string list \<Rightarrow> topo_entry list \<Rightarrow> match_state \<times> bool
     \<Rightarrow> error + (match_state \<times> bool)" where
  "entry_loop atom_type_dict topo_type topo_element [] (st, not_matched) = Inr (st, not_matched)"
| "entry_loop atom_type_dict topo_type topo_element (topo_entry # rest) (st, not_matched) =
     (case sequence_loop atom_type_dict topo_type topo_element topo_entry
             (sequences topo_type) (st, not_matched) of
        Inl e \<Rightarrow> Inl e
      | Inr r \<Rightarrow> entry_loop atom_type_dict topo_type topo_element rest r)"

text \<open>One interaction: \<^verbatim>\<open>not_matched\<close> starts out true.\<close>

definition match_element ::
  "pydict \<Rightarrow> topo_type \<Rightarrow> topo_entry list \<Rightarrow> match_state \<Rightarrow> string list \<Rightarrow> error + match_state" where
  "match_element atom_type_dict topo_type entries st topo_element =
     (case entry_loop atom_type_dict topo_type topo_element entries (st, True) of
        Inl e \<Rightarrow> Inl e
      | Inr (st', not_matched) \<Rightarrow> Inr st')"

fun element_loop ::
  "pydict \<Rightarrow> topo_type \<Rightarrow> topo_entry list \<Rightarrow> string list list \<Rightarrow> match_state
     \<Rightarrow> error + match_state" where
  "element_loop atom_type_dict topo_type entries [] st = Inr st"
| "element_loop atom_type_dict topo_type entries (topo_element # rest) st =
     (case match_element atom_type_dict topo_type entries st topo_element of
        Inl e \<Rightarrow> Inl e
      | Inr st' \<Rightarrow> element_loop atom_type_dict topo_type entries rest st')"

text \<open>\<^verbatim>\<open>_topology_match\<close>: it returns the output document with the matched records appended.\<close>

definition topology_match ::
  "pydict \<Rightarrow> pmd_structure \<Rightarrow> xml \<Rightarrow> xml \<Rightarrow> topo_type \<Rightarrow> nat \<Rightarrow> error + xml" where
  "topology_match atom_type_dict typed_topo xml_root blank topo_type n_params =
     (case enumerate_topo topo_type n_params (parmed_section topo_type typed_topo) of
        Inl e \<Rightarrow> Inl e
      | Inr topo_by_type \<Rightarrow>
          (case element_loop atom_type_dict topo_type (topo_entries xml_root topo_type n_params)
                  topo_by_type \<lparr>unique_collection = [], blank_root = blank\<rparr> of
             Inl e \<Rightarrow> Inl e
           | Inr st \<Rightarrow> Inr (blank_root st)))"

section \<open>Resolving atom types to classes\<close>

text \<open>\<^verbatim>\<open>s.split(',')\<close>: the pieces between commas; an empty string has one empty piece.\<close>

fun split_comma :: "string \<Rightarrow> string list" where
  "split_comma [] = [[]]"
| "split_comma (c # cs) =
     (if c = CHR '','' then [] # split_comma cs
      else (case split_comma cs of [] \<Rightarrow> [[c]] | w # ws \<Rightarrow> (c # w) # ws))"

text \<open>The dictionary of the structure's own atom types, each with the class \<^verbatim>\<open>''\<close>.\<close>

definition initial_atom_types :: "string list \<Rightarrow> pydict" where
  "initial_atom_types names =
     foldl (\<lambda>d name. if \<not> has_key d name then AList.update name [] d else d) [] names"

text \<open>\<^verbatim>\<open>for override in overrides: if override not in atom_type_dict: ..\<close>\<close>

fun overrides_loop :: "pydict \<Rightarrow> string list \<Rightarrow> pydict \<Rightarrow> pydict" where
  "overrides_loop atom_type_dict [] overrides_dict = overrides_dict"
| "overrides_loop atom_type_dict (override # rest) overrides_dict =
     overrides_loop atom_type_dict rest
       (if \<not> has_key atom_type_dict override then AList.update override [] overrides_dict
        else overrides_dict)"

text \<open>The loop over the \<^verbatim>\<open>Type\<close> definitions for one known atom type.\<close>

fun type_loop :: "string \<Rightarrow> xml list \<Rightarrow> pydict \<times> pydict \<Rightarrow> error + (pydict \<times> pydict)" where
  "type_loop atom_type [] (atom_type_dict, overrides_dict) = Inr (atom_type_dict, overrides_dict)"
| "type_loop atom_type (atom # rest) (atom_type_dict, overrides_dict) =
     (case getitem (attrib atom) ''name'' of
        Inl e \<Rightarrow> Inl e
      | Inr name \<Rightarrow>
          if name = atom_type then
            (case getitem (attrib atom) ''class'' of
               Inl e \<Rightarrow> Inl e
             | Inr c \<Rightarrow>
                 (case map_of (attrib atom) ''overrides'' of
                    None \<Rightarrow> type_loop atom_type rest
                              (AList.update atom_type c atom_type_dict, overrides_dict)
                  | Some overrides \<Rightarrow>
                      type_loop atom_type rest
                        (AList.update atom_type c atom_type_dict,
                         overrides_loop (AList.update atom_type c atom_type_dict)
                           (split_comma overrides) overrides_dict)))
          else type_loop atom_type rest (atom_type_dict, overrides_dict))"

text \<open>One pass of the \<^verbatim>\<open>while\<close> loop, over the keys the dictionary has when the pass starts
  (the pass changes values only).\<close>

fun atom_type_loop ::
  "xml list \<Rightarrow> string list \<Rightarrow> pydict \<times> pydict \<Rightarrow> error + (pydict \<times> pydict)" where
  "atom_type_loop types [] r = Inr r"
| "atom_type_loop types (atom_type # rest) r =
     (case type_loop atom_type types r of
        Inl e \<Rightarrow> Inl e
      | Inr r' \<Rightarrow> atom_type_loop types rest r')"

definition resolve_pass :: "xml list \<Rightarrow> pydict \<Rightarrow> error + (pydict \<times> pydict)" where
  "resolve_pass types atom_type_dict =
     atom_type_loop types (map fst atom_type_dict) (atom_type_dict, [])"

text \<open>\<^verbatim>\<open>d.update(other)\<close>\<close>

definition dict_update :: "pydict \<Rightarrow> pydict \<Rightarrow> pydict" where
  "dict_update d other = foldl (\<lambda>d (k, v). AList.update k v d) d other"

text \<open>The line \<^verbatim>\<open>print\<close> writes for one key: its arguments joined by single spaces.\<close>

definition note_line :: "string \<Rightarrow> string" where
  "note_line key = ''Note: atom type:  '' @ key @
     ''  is referenced in an overrides statement, but does not appear in the system.''"

text \<open>Every identifier that some \<^verbatim>\<open>overrides\<close> attribute of the document lists.\<close>

definition override_targets :: "xml list \<Rightarrow> string set" where
  "override_targets types =
     (\<Union>atom\<in>set types. case map_of (attrib atom) ''overrides'' of
                            None \<Rightarrow> {} | Some overrides \<Rightarrow> set (split_comma overrides))"

text \<open>
  The \<^verbatim>\<open>while iterate\<close> loop. Its second argument is the dictionary, its third what has
  been printed so far; it returns what has been printed and the dictionary, or the
  exception of the pass that raised.
\<close>

function resolve_loop :: "xml list \<Rightarrow> pydict \<Rightarrow> string list \<Rightarrow> string list \<times> (error + pydict)" where
  "resolve_loop types atom_type_dict out =
     (case resolve_pass types atom_type_dict of
        Inl e \<Rightarrow> (out, Inl e)
      | Inr (atom_type_dict', overrides_dict) \<Rightarrow>
          if length overrides_dict > 0
          then resolve_loop types (dict_update atom_type_dict' overrides_dict)
                 (out @ map (\<lambda>(key, v). note_line key) overrides_dict)
          else (out, Inr (dict_update atom_type_dict' overrides_dict)))"
  by pat_completeness auto

text \<open>The resolution of \<^verbatim>\<open>forcefield_trim\<close>: from the structure's atom types, with nothing printed.\<close>

definition resolve_atom_types :: "xml list \<Rightarrow> string list \<Rightarrow> string list \<times> (error + pydict)" where
  "resolve_atom_types types names = resolve_loop types (initial_atom_types names) []"

section \<open>\<^verbatim>\<open>forcefield_trim\<close>\<close>

text \<open>The loop over the \<^verbatim>\<open>Type\<close> elements that fills the \<^verbatim>\<open>AtomTypes\<close> section.\<close>

fun atom_types_loop :: "xml list \<Rightarrow> pydict \<times> xml \<Rightarrow> error + (pydict \<times> xml)" where
  "atom_types_loop [] r = Inr r"
| "atom_types_loop (atom # rest) (atom_type_dict, blank) =
     (case getitem (attrib atom) ''name'' of
        Inl e \<Rightarrow> Inl e
      | Inr name \<Rightarrow>
          if has_key atom_type_dict name then
            (case getitem (attrib atom) ''class'' of
               Inl e \<Rightarrow> Inl e
             | Inr c \<Rightarrow>
                 atom_types_loop rest
                   (AList.update name c atom_type_dict,
                    append_to_section ''AtomTypes'' (dict_to_xml ''Type'' (attrib atom)) blank))
          else atom_types_loop rest (atom_type_dict, blank))"

text \<open>The loop over the \<^verbatim>\<open>Atom\<close> elements that fills the \<^verbatim>\<open>NonbondedForce\<close> section.\<close>

fun nonbonded_loop :: "pydict \<Rightarrow> xml list \<Rightarrow> xml \<Rightarrow> error + xml" where
  "nonbonded_loop atom_type_dict [] blank = Inr blank"
| "nonbonded_loop atom_type_dict (atom # rest) blank =
     (case getitem (attrib atom) ''type'' of
        Inl e \<Rightarrow> Inl e
      | Inr t \<Rightarrow>
          nonbonded_loop atom_type_dict rest
            (if has_key atom_type_dict t
             then append_to_section ''NonbondedForce'' (dict_to_xml ''Atom'' (attrib atom)) blank
             else blank))"

text \<open>Everything between the resolution and the writing of the output file.\<close>

definition assemble :: "pydict \<Rightarrow> xml \<Rightarrow> xml \<Rightarrow> pmd_structure \<Rightarrow> error + xml" where
  "assemble atom_type_dict blank xml_root typed_molecule =
     (case atom_types_loop (iter xml_root ''Type'') (atom_type_dict, blank) of
        Inl e \<Rightarrow> Inl e
      | Inr (atd, b1) \<Rightarrow>
     (case nonbonded_loop atd (iter xml_root ''Atom'') b1 of
        Inl e \<Rightarrow> Inl e
      | Inr b2 \<Rightarrow>
     (case topology_match atd typed_molecule xml_root b2 Bond 2 of
        Inl e \<Rightarrow> Inl e
      | Inr b3 \<Rightarrow>
     (case topology_match atd typed_molecule xml_root b3 Angle 3 of
        Inl e \<Rightarrow> Inl e
      | Inr b4 \<Rightarrow>
     (case topology_match atd typed_molecule xml_root b4 Proper 4 of
        Inl e \<Rightarrow> Inl e
      | Inr b5 \<Rightarrow> topology_match atd typed_molecule xml_root b5 Improper 4)))))"

text \<open>
  What a call leaves behind: the lines printed, the document the call has written to the
  output file (if it has) and the exception raised (if any).
\<close>

record outcome =
  stdout :: "string list"
  output_file :: "xml option"
  raised :: "error option"

text \<open>
  The \<^verbatim>\<open>else\<close> branch of \<^verbatim>\<open>forcefield_trim\<close>, for a Parmed structure. Its last argument
  stands for \<^verbatim>\<open>blank_tree.write(output_xml, ..)\<close>: for the document to write, the exception
  the write to that path raises, or \<open>None\<close> when the file is written. Indenting changes no
  element.
\<close>

definition trim_structure ::
  "xml \<Rightarrow> xml \<Rightarrow> pmd_structure \<Rightarrow> (xml \<Rightarrow> error option) \<Rightarrow> outcome" where
  "trim_structure blank xml_root typed_molecule output_xml =
     (case resolve_atom_types (iter xml_root ''Type'') (atoms typed_molecule) of
        (out, Inl e) \<Rightarrow> \<lparr>stdout = out, output_file = None, raised = Some e\<rparr>
      | (out, Inr atom_type_dict) \<Rightarrow>
          (case assemble atom_type_dict blank xml_root typed_molecule of
             Inl e \<Rightarrow> \<lparr>stdout = out, output_file = None, raised = Some e\<rparr>
           | Inr doc \<Rightarrow>
               (case output_xml doc of
                  Some e \<Rightarrow> \<lparr>stdout = out, output_file = None, raised = Some e\<rparr>
                | None \<Rightarrow> \<lparr>stdout = out, output_file = Some doc, raised = None\<rparr>)))"

text \<open>
  \<^verbatim>\<open>forcefield_trim\<close>. Its first argument is what \<^verbatim>\<open>ET.parse\<close> returns for the package's
  blank template, its second what it returns for \<^verbatim>\<open>input_xml\<close>; \<open>None\<close> when the call
  raises. Its last argument is the write to \<^verbatim>\<open>output_xml\<close>, as above.
\<close>

definition forcefield_trim ::
  "xml option \<Rightarrow> xml option \<Rightarrow> py_object \<Rightarrow> (xml \<Rightarrow> error option) \<Rightarrow> outcome" where
  "forcefield_trim blank_xml input_xml typed_molecule output_xml =
     (case blank_xml of
        None \<Rightarrow> \<lparr>stdout = [], output_file = None, raised = Some ParseError\<rparr>
      | Some blank \<Rightarrow>
          (case input_xml of
             None \<Rightarrow> \<lparr>stdout = [], output_file = None, raised = Some ParseError\<rparr>
           | Some xml_root \<Rightarrow>
               (case typed_molecule of
                  Other_object \<Rightarrow> \<lparr>stdout = [], output_file = None, raised = Some ValueError\<rparr>
                | Structure s \<Rightarrow> trim_structure blank xml_root s output_xml)))"

section \<open>The notions of the specification\<close>

text \<open>
  The number of atoms of an interaction of each kind; \<^verbatim>\<open>forcefield_trim\<close> passes it as
  \<^verbatim>\<open>n_params\<close>.
\<close>

fun arity :: "topo_type \<Rightarrow> nat" where
  "arity Bond = 2"
| "arity Angle = 3"
| "arity Proper = 4"
| "arity Improper = 4"

text \<open>
  Two-body, three-body and four-body chain: forward and reverse. Four-body star: the
  central first atom is fixed and the peripheral atoms are permuted.
\<close>

fun sym_equiv :: "topo_type \<Rightarrow> string list \<Rightarrow> string list \<Rightarrow> bool" where
  "sym_equiv Improper t u = (take 1 u = take 1 t \<and> mset (drop 1 u) = mset (drop 1 t))"
| "sym_equiv k t u = (u = t \<or> u = rev t)"

text \<open>Position \<open>i\<close> of the input holds a tuple that no earlier position holds up to symmetry.\<close>

definition first_occurrence :: "topo_type \<Rightarrow> string list list \<Rightarrow> nat \<Rightarrow> bool" where
  "first_occurrence k xs i = list_all (\<lambda>j. \<not> sym_equiv k (xs ! j) (xs ! i)) [0..<i]"

text \<open>A \<^verbatim>\<open>Type\<close> element with the attributes the resolution reads.\<close>

definition well_formed_type :: "xml \<Rightarrow> bool" where
  "well_formed_type atom = (has_key (attrib atom) ''name'' \<and> has_key (attrib atom) ''class'')"

text \<open>
  The identifiers reachable from the set \<open>S\<close>: those of \<open>S\<close>, and every identifier that the
  \<^verbatim>\<open>overrides\<close> list of a \<^verbatim>\<open>Type\<close> element named by a reachable identifier holds.
\<close>

inductive_set reachable :: "xml list \<Rightarrow> string set \<Rightarrow> string set"
  for types :: "xml list" and S :: "string set" where
  base: "t \<in> S \<Longrightarrow> t \<in> reachable types S"
| step: "t \<in> reachable types S \<Longrightarrow> atom \<in> set types \<Longrightarrow>
         map_of (attrib atom) ''name'' = Some t \<Longrightarrow>
         map_of (attrib atom) ''overrides'' = Some overrides \<Longrightarrow>
         y \<in> set (split_comma overrides) \<Longrightarrow> y \<in> reachable types S"

text \<open>An identifier is reported: its line has been printed.\<close>

definition noted :: "string list \<times> (error + pydict) \<Rightarrow> string \<Rightarrow> bool" where
  "noted r y = (note_line y \<in> set (fst r))"

text \<open>An identifier is resolved: the returned map gives it a class other than \<^verbatim>\<open>''\<close>.\<close>

definition resolved_to_class :: "string list \<times> (error + pydict) \<Rightarrow> string \<Rightarrow> bool" where
  "resolved_to_class r y =
     (case snd r of
        Inl e \<Rightarrow> False
      | Inr atom_type_dict \<Rightarrow>
          (case map_of atom_type_dict y of None \<Rightarrow> False | Some c \<Rightarrow> c \<noteq> []))"



text \<open>
  A record constrains position \<open>i\<close> (counted from one) by class when it has the attribute
  \<^verbatim>\<open>class\<close>\<open>i\<close>, and by type otherwise. An atom type meets the constraint when its class,
  or the type itself, is the value the record holds.
\<close>

definition constraint_ok :: "pydict \<Rightarrow> pydict \<Rightarrow> nat \<Rightarrow> string \<Rightarrow> bool" where
  "constraint_ok atom_type_dict topo i a =
     (case map_of topo (class_key i) of
        Some c \<Rightarrow> map_of atom_type_dict a = Some c
      | None \<Rightarrow> map_of topo (type_key i) = Some a)"

text \<open>A record is satisfied by a tuple: every position meets its constraint.\<close>

definition satisfies :: "pydict \<Rightarrow> pydict \<Rightarrow> string list \<Rightarrow> bool" where
  "satisfies atom_type_dict topo u =
     list_all (\<lambda>(i, a). constraint_ok atom_type_dict topo i a) (zip [1..<length u + 1] u)"

text \<open>A record could match an interaction: it is satisfied by some equivalent ordering of it.\<close>

definition could_match :: "pydict \<Rightarrow> topo_type \<Rightarrow> string list \<Rightarrow> pydict \<Rightarrow> bool" where
  "could_match atom_type_dict k topo_element topo =
     (\<exists>u. sym_equiv k topo_element u \<and> satisfies atom_type_dict topo u)"

text \<open>The number of class-constrained positions of a record.\<close>

definition class_count :: "nat \<Rightarrow> pydict \<Rightarrow> nat" where
  "class_count n topo = length (filter (\<lambda>i. has_key topo (class_key i)) [1..<n + 1])"

text \<open>A record that names a class or a type at every position.\<close>

definition well_formed_record :: "nat \<Rightarrow> pydict \<Rightarrow> bool" where
  "well_formed_record n topo =
     list_all (\<lambda>i. has_key topo (class_key i) \<or> has_key topo (type_key i)) [1..<n + 1]"

section \<open>Auxiliary notions of the proofs\<close>

text \<open>The accepted list after one more element, when nothing raises.\<close>

definition accept :: "topo_type \<Rightarrow> string list list \<Rightarrow> string list \<Rightarrow> string list list" where
  "accept k acc t = (if \<exists>a\<in>set acc. sym_equiv k a t then acc else acc @ [t])"

text \<open>The identifiers the \<^verbatim>\<open>overrides\<close> attributes of the definitions of one type list.\<close>

definition overrides_of :: "xml list \<Rightarrow> string \<Rightarrow> string set" where
  "overrides_of types t =
     (\<Union>atom\<in>set types. if map_of (attrib atom) ''name'' = Some t
                          then (case map_of (attrib atom) ''overrides'' of
                                  None \<Rightarrow> {} | Some overrides \<Rightarrow> set (split_comma overrides))
                          else {})"


text \<open>The key \<^verbatim>\<open>_identify_schema\<close> chooses for position \<open>i\<close>.\<close>

definition schema_key :: "pydict \<Rightarrow> nat \<Rightarrow> string" where
  "schema_key topo i = (if has_key topo (class_key i) then class_key i else type_key i)"

text \<open>The value a dictionary holds for a key it has.\<close>

definition lookup :: "pydict \<Rightarrow> string \<Rightarrow> string" where
  "lookup d k = (case map_of d k of None \<Rightarrow> [] | Some v \<Rightarrow> v)"

text \<open>The values a record holds at the keys of its schema: the matcher's \<^verbatim>\<open>collection\<close>.\<close>

definition collection_of :: "nat \<Rightarrow> pydict \<Rightarrow> string list" where
  "collection_of n topo = map (lookup topo) (map (schema_key topo) [1..<n + 1])"

text \<open>Some ordering the matcher tries satisfies the record.\<close>

definition hit :: "pydict \<Rightarrow> topo_type \<Rightarrow> string list \<Rightarrow> pydict \<Rightarrow> bool" where
  "hit atd k elem topo = (\<exists>s\<in>set (sequences k). satisfies atd topo (map ((!) elem) s))"

text \<open>The output document after the records \<open>em\<close> have been emitted, in this order.\<close>

definition emit_all :: "topo_type \<Rightarrow> pydict list \<Rightarrow> xml \<Rightarrow> xml" where
  "emit_all k em blank =
     foldl (\<lambda>b topo. append_to_section (xml_section k) (dict_to_xml (topo_tag k) topo) b) blank em"

text \<open>The collection of a record of \<open>n\<close> classified positions, for a kind.\<close>

definition kind_collection :: "topo_type \<Rightarrow> nat \<Rightarrow> pydict \<Rightarrow> string list" where
  "kind_collection k n topo =
     map (lookup topo) (take (arity k) (map (schema_key topo) [1..<n + 1]))"

text \<open>The matcher's invariant: the recorded collections are those of the emitted records,
  and no collection is recorded twice.\<close>

definition emitted_once :: "topo_type \<Rightarrow> nat \<Rightarrow> xml \<Rightarrow> pydict set \<Rightarrow> match_state \<Rightarrow> bool" where
  "emitted_once k n blank pool st =
     (\<exists>em. unique_collection st = map (kind_collection k n) em
         \<and> distinct (unique_collection st)
         \<and> set em \<subseteq> pool
         \<and> blank_root st = emit_all k em blank)"

section \<open>The resolution loop ends\<close>

lemma has_key_keys: "has_key d k = (k \<in> fst ` set d)"
  by (simp add: has_key_def)

lemma overrides_of_Nil: "overrides_of [] t = {}"
  by (simp add: overrides_of_def)

lemma overrides_of_Cons:
  "overrides_of (atom # rest) t =
     (if map_of (attrib atom) ''name'' = Some t
      then (case map_of (attrib atom) ''overrides'' of
              None \<Rightarrow> {} | Some overrides \<Rightarrow> set (split_comma overrides))
      else {}) \<union> overrides_of rest t"
  by (simp add: overrides_of_def)

lemma overrides_of_targets: "overrides_of types t \<subseteq> override_targets types"
  by (auto simp: overrides_of_def override_targets_def split: if_splits)

lemma finite_override_targets: "finite (override_targets types)"
  by (auto simp: override_targets_def split: option.splits)

lemma keys_overrides_loop:
  "fst ` set (overrides_loop atd os ov) = fst ` set ov \<union> (set os - fst ` set atd)"
  by (induction os arbitrary: ov) (auto simp: has_key_keys dom_update)

lemma type_loop_keys:
  "type_loop t types (atd, ov) = Inr (atd', ov') \<Longrightarrow> t \<in> fst ` set atd \<Longrightarrow>
     fst ` set atd' = fst ` set atd \<and>
     fst ` set ov' = fst ` set ov \<union> (overrides_of types t - fst ` set atd)"
proof (induction types arbitrary: atd ov)
  case Nil
  then show ?case by (simp add: overrides_of_Nil)
next
  case (Cons atom rest)
  show ?case
  proof (cases "map_of (attrib atom) ''name'' = Some t")
    case False
    with Cons.prems(1) have "type_loop t rest (atd, ov) = Inr (atd', ov')"
      by (auto simp: getitem_def split: option.splits if_splits)
    from Cons.IH[OF this Cons.prems(2)] False show ?thesis
      by (simp add: overrides_of_Cons)
  next
    case True
    with Cons.prems(1) obtain c where c: "map_of (attrib atom) ''class'' = Some c"
      by (auto simp: getitem_def split: option.splits)
    let ?atd = "AList.update t c atd"
    have k: "fst ` set ?atd = fst ` set atd" using Cons.prems(2) by (auto simp: dom_update)
    then have tin: "t \<in> fst ` set ?atd" using Cons.prems(2) by simp
    show ?thesis
    proof (cases "map_of (attrib atom) ''overrides''")
      case None
      with Cons.prems(1) True c have "type_loop t rest (?atd, ov) = Inr (atd', ov')"
        by (simp add: getitem_def)
      from Cons.IH[OF this tin] True None k show ?thesis
        by (simp add: overrides_of_Cons)
    next
      case (Some os)
      with Cons.prems(1) True c
      have "type_loop t rest (?atd, overrides_loop ?atd (split_comma os) ov) = Inr (atd', ov')"
        by (simp add: getitem_def)
      from Cons.IH[OF this tin] True Some k show ?thesis
        by (auto simp: overrides_of_Cons keys_overrides_loop)
    qed
  qed
qed

lemma atom_type_loop_keys:
  "atom_type_loop types ts (atd, ov) = Inr (atd', ov') \<Longrightarrow> set ts \<subseteq> fst ` set atd \<Longrightarrow>
     fst ` set atd' = fst ` set atd \<and>
     fst ` set ov' = fst ` set ov \<union> ((\<Union>t\<in>set ts. overrides_of types t) - fst ` set atd)"
proof (induction ts arbitrary: atd ov)
  case Nil
  then show ?case by simp
next
  case (Cons t ts)
  from Cons.prems(1) obtain atd1 ov1 where
    1: "type_loop t types (atd, ov) = Inr (atd1, ov1)"
    and 2: "atom_type_loop types ts (atd1, ov1) = Inr (atd', ov')"
    by (auto split: sum.splits)
  have k1: "fst ` set atd1 = fst ` set atd"
    "fst ` set ov1 = fst ` set ov \<union> (overrides_of types t - fst ` set atd)"
    using type_loop_keys[OF 1] Cons.prems(2) by auto
  have "set ts \<subseteq> fst ` set atd1" using Cons.prems(2) k1 by simp
  from Cons.IH[OF 2 this] k1 show ?case by auto
qed

lemma resolve_pass_keys:
  assumes "resolve_pass types atd = Inr (atd', ov)"
  shows "fst ` set atd' = fst ` set atd"
    and "fst ` set ov = (\<Union>t\<in>fst ` set atd. overrides_of types t) - fst ` set atd"
proof -
  have run: "atom_type_loop types (map fst atd) (atd, []) = Inr (atd', ov)"
    using assms by (simp add: resolve_pass_def)
  have sub: "set (map fst atd) \<subseteq> fst ` set atd" by simp
  note r = atom_type_loop_keys[OF run sub]
  show "fst ` set atd' = fst ` set atd" by (rule r[THEN conjunct1])
  show "fst ` set ov = (\<Union>t\<in>fst ` set atd. overrides_of types t) - fst ` set atd"
    using r[THEN conjunct2] by simp
qed

lemma keys_dict_update: "fst ` set (dict_update d other) = fst ` set d \<union> fst ` set other"
  unfolding dict_update_def
proof (induction other arbitrary: d)
  case Nil
  show ?case by simp
next
  case (Cons p other)
  obtain k v where p: "p = (k, v)" by (cases p)
  have "fst ` set (foldl (\<lambda>d (k, v). AList.update k v d) (AList.update k v d) other)
      = fst ` set (AList.update k v d) \<union> fst ` set other"
    by (rule Cons.IH)
  then show ?case unfolding p by (simp add: dom_update)
qed

lemma resolve_pass_decreases:
  assumes "resolve_pass types atd = Inr (atd', ov)" "ov \<noteq> []"
  shows "card (override_targets types - fst ` set (dict_update atd' ov))
       < card (override_targets types - fst ` set atd)"
proof -
  have "(\<Union>t\<in>fst ` set atd. overrides_of types t) \<subseteq> override_targets types"
    using overrides_of_targets by blast
  then have k: "fst ` set ov \<subseteq> override_targets types - fst ` set atd"
    unfolding resolve_pass_keys(2)[OF assms(1)] by blast
  obtain x where x: "x \<in> fst ` set ov" using assms(2) by (cases ov) auto
  have e: "fst ` set (dict_update atd' ov) = fst ` set atd \<union> fst ` set ov"
    by (simp only: keys_dict_update resolve_pass_keys(1)[OF assms(1)])
  have "override_targets types - (fst ` set atd \<union> fst ` set ov)
      \<subset> override_targets types - fst ` set atd"
    using k x by blast
  then show ?thesis unfolding e
    by (rule psubset_card_mono[rotated]) (simp add: finite_override_targets)
qed

termination resolve_loop
  apply (relation "measure (\<lambda>(types, atd, out). card (override_targets types - fst ` set atd))")
   apply simp
  apply (simp add: resolve_pass_decreases)
  done

declare resolve_loop.simps [simp del]

section \<open>The enumerator removes symmetric duplicates\<close>

lemma reorder_map: "\<forall>i\<in>set is. i < length xs \<Longrightarrow> reorder xs is = Inr (map ((!) xs) is)"
  by (induction "is") auto

lemma len2: "length t = 2 \<Longrightarrow> \<exists>a b. t = [a,b]"
  by (cases t; cases "tl t"; auto)

lemma len3: "length t = 3 \<Longrightarrow> \<exists>a b c. t = [a,b,c]"
  by (cases t; cases "tl t"; cases "tl (tl t)"; auto)

lemma len4: "length t = 4 \<Longrightarrow> \<exists>a b c d. t = [a,b,c,d]"
  by (cases t; cases "tl t"; cases "tl (tl t)"; cases "tl (tl (tl t))"; auto)

lemma sym_equiv_refl: "sym_equiv k t t"
  by (cases k) auto

lemma sym_equiv_sym: "sym_equiv k t u \<Longrightarrow> sym_equiv k u t"
  by (cases k) auto

lemma sym_equiv_trans: "sym_equiv k t u \<Longrightarrow> sym_equiv k u v \<Longrightarrow> sym_equiv k t v"
  by (cases k) auto

lemma m3: "mset [x,y,z] = mset [b,c,d] \<longleftrightarrow>
   (x=b\<and>y=c\<and>z=d)\<or>(x=b\<and>y=d\<and>z=c)\<or>(x=c\<and>y=b\<and>z=d)\<or>(x=c\<and>y=d\<and>z=b)\<or>(x=d\<and>y=b\<and>z=c)\<or>(x=d\<and>y=c\<and>z=b)"
  by (auto simp: add_eq_conv_ex)

lemma orderings_Bond: "map (reorder [a,b]) (sequences Bond) = [Inr [a,b], Inr [b,a]]"
  by simp

lemma orderings_Angle: "map (reorder [a,b,c]) (sequences Angle) = [Inr [a,b,c], Inr [c,b,a]]"
  by simp

lemma orderings_Proper: "map (reorder [a,b,c,d]) (sequences Proper) = [Inr [a,b,c,d], Inr [d,c,b,a]]"
  by simp

lemma orderings_Improper: "map (reorder [a,b,c,d]) (sequences Improper) =
   [Inr [a,b,c,d], Inr [a,b,d,c], Inr [a,c,b,d], Inr [a,c,d,b], Inr [a,d,b,c], Inr [a,d,c,b]]"
  by simp

lemma sequences_sym_equiv:
  assumes "length t = arity k"
  shows "Inr u \<in> set (map (reorder t) (sequences k)) \<longleftrightarrow> sym_equiv k t u"
proof (cases k)
  case Bond
  with assms obtain a b where "t = [a,b]" using len2[of t] by auto
  with Bond show ?thesis by (auto simp del: sequences.simps simp: orderings_Bond)
next
  case Angle
  with assms obtain a b c where "t = [a,b,c]" using len3[of t] by auto
  with Angle show ?thesis by (auto simp del: sequences.simps simp: orderings_Angle)
next
  case Proper
  with assms obtain a b c d where "t = [a,b,c,d]" using len4[of t] by auto
  with Proper show ?thesis by (auto simp del: sequences.simps simp: orderings_Proper)
next
  case Improper
  with assms obtain a b c d where t: "t = [a,b,c,d]" using len4[of t] by auto
  show ?thesis
  proof
    assume "Inr u \<in> set (map (reorder t) (sequences k))"
    then have "u \<in> {[a,b,c,d], [a,b,d,c], [a,c,b,d], [a,c,d,b], [a,d,b,c], [a,d,c,b]}"
      unfolding Improper t orderings_Improper by auto
    then show "sym_equiv k t u" unfolding Improper t by auto
  next
    assume "sym_equiv k t u"
    then have u: "take 1 u = [a]" "mset (drop 1 u) = mset [b,c,d]"
      unfolding Improper t by auto
    from u(2) have "length (drop 1 u) = 3" using mset_eq_length by fastforce
    then obtain x y z where "drop 1 u = [x,y,z]" using len3[of "drop 1 u"] by blast
    with u have "u = [a,x,y,z]" "mset [x,y,z] = mset [b,c,d]" by (cases u; auto)+
    then show "Inr u \<in> set (map (reorder t) (sequences k))"
      unfolding Improper t orderings_Improper m3 by auto
  qed
qed

lemma get_topo_af_exact: "length el = n \<Longrightarrow> get_topo_af el n = Inr el"
  by (simp add: get_topo_af_def)

lemma sequences_in_range: "seq \<in> set (sequences k) \<Longrightarrow> i \<in> set seq \<Longrightarrow> i < arity k"
  by (cases k) auto

lemma reorder_sequences:
  "length t = arity k \<Longrightarrow> seq \<in> set (sequences k) \<Longrightarrow> reorder t seq = Inr (map ((!) t) seq)"
  by (rule reorder_map) (auto dest: sequences_in_range)

lemma is_unique_general:
  "\<forall>seq\<in>set seqs. \<exists>p. reorder t seq = Inr p \<Longrightarrow>
   is_unique t acc seqs = Inr (\<not> (\<exists>a\<in>set acc. Inr a \<in> set (map (reorder t) seqs)))"
  by (induction seqs) force+

lemma is_unique_iff:
  assumes "length t = arity k"
  shows "is_unique t acc (sequences k) = Inr (\<not> (\<exists>a\<in>set acc. sym_equiv k a t))"
proof -
  have "\<forall>seq\<in>set (sequences k). \<exists>p. reorder t seq = Inr p"
    using reorder_sequences[OF assms] by blast
  then have "is_unique t acc (sequences k) =
      Inr (\<not> (\<exists>a\<in>set acc. Inr a \<in> set (map (reorder t) (sequences k))))"
    by (rule is_unique_general)
  also have "(\<exists>a\<in>set acc. Inr a \<in> set (map (reorder t) (sequences k))) = (\<exists>a\<in>set acc. sym_equiv k a t)"
    using sequences_sym_equiv[OF assms] sym_equiv_sym by blast
  finally show ?thesis .
qed

lemma enumerate_loop_pure:
  "\<forall>el\<in>set xs. length el = arity k \<Longrightarrow>
   enumerate_loop k (arity k) acc xs = Inr (foldl (accept k) acc xs)"
  by (induction xs arbitrary: acc) (auto simp: get_topo_af_exact is_unique_iff accept_def)

lemma first_occurrence_iff:
  "first_occurrence k xs i = (\<forall>j<i. \<not> sym_equiv k (xs ! j) (xs ! i))"
  by (auto simp: first_occurrence_def list_all_iff)

lemma foldl_accept_char:
  "foldl (accept k) [] xs = map ((!) xs) (filter (first_occurrence k xs) [0..<length xs])
   \<and> (\<forall>x\<in>set xs. \<exists>a\<in>set (foldl (accept k) [] xs). sym_equiv k a x)
   \<and> set (foldl (accept k) [] xs) \<subseteq> set xs
   \<and> sorted_wrt (\<lambda>a b. \<not> sym_equiv k a b) (foldl (accept k) [] xs)"
proof (induction xs rule: rev_induct)
  case Nil
  show ?case by simp
next
  case (snoc x xs)
  define ys where "ys = foldl (accept k) [] xs"
  define zs where "zs = accept k ys x"
  have IH1: "ys = map ((!) xs) (filter (first_occurrence k xs) [0..<length xs])"
    and IH2: "\<forall>x\<in>set xs. \<exists>a\<in>set ys. sym_equiv k a x"
    and IH3: "set ys \<subseteq> set xs"
    and IH4: "sorted_wrt (\<lambda>a b. \<not> sym_equiv k a b) ys"
    using snoc.IH unfolding ys_def by blast+
  have step: "foldl (accept k) [] (xs @ [x]) = zs"
    by (simp add: ys_def zs_def)
  have dup: "(\<exists>a\<in>set ys. sym_equiv k a x) \<longleftrightarrow> (\<exists>j<length xs. sym_equiv k (xs ! j) x)"
  proof
    assume "\<exists>a\<in>set ys. sym_equiv k a x"
    then obtain a where "a \<in> set xs" "sym_equiv k a x" using IH3 by blast
    then show "\<exists>j<length xs. sym_equiv k (xs ! j) x" by (metis in_set_conv_nth)
  next
    assume "\<exists>j<length xs. sym_equiv k (xs ! j) x"
    then obtain j where j: "j < length xs" "sym_equiv k (xs ! j) x" by blast
    obtain a where "a \<in> set ys" "sym_equiv k a (xs ! j)"
      using IH2 j(1) by (meson nth_mem)
    then show "\<exists>a\<in>set ys. sym_equiv k a x" using j(2) sym_equiv_trans by blast
  qed
  have zs: "zs = (if \<exists>a\<in>set ys. sym_equiv k a x then ys else ys @ [x])"
    by (simp add: zs_def accept_def)
  have fo_old: "\<And>i. i < length xs \<Longrightarrow> first_occurrence k (xs @ [x]) i = first_occurrence k xs i"
    by (simp add: first_occurrence_iff nth_append)
  have fo_new: "first_occurrence k (xs @ [x]) (length xs) = (\<not> (\<exists>j<length xs. sym_equiv k (xs ! j) x))"
    by (auto simp: first_occurrence_iff nth_append)
  have filt: "filter (first_occurrence k (xs @ [x])) [0..<length xs] = filter (first_occurrence k xs) [0..<length xs]"
    by (rule filter_cong) (auto simp: fo_old)
  have mp: "map ((!) (xs @ [x])) (filter (first_occurrence k xs) [0..<length xs])
          = map ((!) xs) (filter (first_occurrence k xs) [0..<length xs])"
    by (rule map_cong) (auto simp: nth_append)
  have 1: "zs = map ((!) (xs @ [x])) (filter (first_occurrence k (xs @ [x])) [0..<length (xs @ [x])])"
    unfolding zs dup by (simp add: filt mp fo_new IH1 [symmetric])
  have 2: "\<forall>y\<in>set (xs @ [x]). \<exists>a\<in>set zs. sym_equiv k a y"
  proof
    fix y assume y: "y \<in> set (xs @ [x])"
    show "\<exists>a\<in>set zs. sym_equiv k a y"
    proof (cases "y = x")
      case True
      then show ?thesis unfolding zs using sym_equiv_refl by auto
    next
      case False
      then have "y \<in> set xs" using y by simp
      then obtain a where "a \<in> set ys" "sym_equiv k a y" using IH2 by blast
      then show ?thesis unfolding zs by auto
    qed
  qed
  have 3: "set zs \<subseteq> set (xs @ [x])"
    unfolding zs using IH3 by auto
  have 4: "sorted_wrt (\<lambda>a b. \<not> sym_equiv k a b) zs"
    unfolding zs using IH4 by (auto simp: sorted_wrt_append)
  show ?case unfolding step using 1 2 3 4 by blast
qed

lemma sym_equiv_length: "sym_equiv k t u \<Longrightarrow> length u = length t"
proof (cases k)
  case Improper
  assume "sym_equiv k t u"
  then have a: "take 1 u = take 1 t" "mset (drop 1 u) = mset (drop 1 t)"
    using Improper by auto
  have "length u = length (take 1 u) + length (drop 1 u)" by simp
  also have "\<dots> = length (take 1 t) + length (drop 1 t)"
    using a mset_eq_length by metis
  finally show ?thesis by simp
qed auto

lemma foldl_accept_fixed:
  "sorted_wrt (\<lambda>a b. \<not> sym_equiv k a b) (acc @ ys) \<Longrightarrow> foldl (accept k) acc ys = acc @ ys"
proof (induction ys arbitrary: acc)
  case Nil
  show ?case by simp
next
  case (Cons y ys)
  have "accept k acc y = acc @ [y]"
    using Cons.prems by (auto simp: accept_def sorted_wrt_append)
  moreover have "sorted_wrt (\<lambda>a b. \<not> sym_equiv k a b) ((acc @ [y]) @ ys)"
    using Cons.prems by simp
  ultimately show ?case using Cons.IH[of "acc @ [y]"] by simp
qed

lemma enumerate_topo_char:
  assumes "\<forall>el\<in>set xs. length el = arity k"
  shows "enumerate_topo k (arity k) xs =
         Inr (map ((!) xs) (filter (first_occurrence k xs) [0..<length xs]))"
  using enumerate_loop_pure[OF assms, of "[]"] foldl_accept_char[of k xs]
  by (simp add: enumerate_topo_def)

text \<open>
  Claim C2. For interactions of one kind, each with the kind's number of atoms, the
  enumerator returns a list in which no two tuples are equivalent under the kind's
  symmetry, and the list holds, in input order, exactly the tuples of the input that are
  not equivalent to an earlier tuple of the input (the first occurrences).
\<close>

theorem enumerate_topo_unique_first_occurrence:
  assumes "\<forall>el\<in>set xs. length el = arity k"
  shows "\<exists>ys. enumerate_topo k (arity k) xs = Inr ys
      \<and> (\<forall>i<length ys. \<forall>j<length ys. i \<noteq> j \<longrightarrow> \<not> sym_equiv k (ys ! i) (ys ! j))
      \<and> ys = map ((!) xs) (filter (first_occurrence k xs) [0..<length xs])"
proof -
  define ys where "ys = foldl (accept k) [] xs"
  have run: "enumerate_topo k (arity k) xs = Inr ys"
    using enumerate_loop_pure[OF assms, of "[]"] by (simp add: enumerate_topo_def ys_def)
  have sw: "sorted_wrt (\<lambda>a b. \<not> sym_equiv k a b) ys"
    and ch: "ys = map ((!) xs) (filter (first_occurrence k xs) [0..<length xs])"
    using foldl_accept_char[of k xs] unfolding ys_def by blast+
  have "\<not> sym_equiv k (ys ! i) (ys ! j)" if "i < length ys" "j < length ys" "i \<noteq> j" for i j
  proof (cases "i < j")
    case True
    then show ?thesis using sw that by (simp add: sorted_wrt_iff_nth_less)
  next
    case False
    then have "j < i" using that by simp
    then have "\<not> sym_equiv k (ys ! j) (ys ! i)" using sw that by (simp add: sorted_wrt_iff_nth_less)
    then show ?thesis using sym_equiv_sym by blast
  qed
  then show ?thesis using run ch by blast
qed

theorem enumerate_topo_witness:
  "enumerate_topo Bond (arity Bond) [[''t1'', ''t2''], [''t2'', ''t1''], [''t1'', ''t3'']]
     = Inr [[''t1'', ''t2''], [''t1'', ''t3'']]
   \<and> (\<exists>ys. enumerate_topo Bond (arity Bond) [[''t1'', ''t2''], [''t2'', ''t1''], [''t1'', ''t3'']] = Inr ys
      \<and> (\<forall>i<length ys. \<forall>j<length ys. i \<noteq> j \<longrightarrow> \<not> sym_equiv Bond (ys ! i) (ys ! j))
      \<and> ys = map ((!) [[''t1'', ''t2''], [''t2'', ''t1''], [''t1'', ''t3'']])
            (filter (first_occurrence Bond [[''t1'', ''t2''], [''t2'', ''t1''], [''t1'', ''t3'']])
               [0..<length [[''t1'', ''t2''], [''t2'', ''t1''], [''t1'', ''t3'']]]))"
proof -
  have run: "enumerate_topo Bond (arity Bond) [[''t1'', ''t2''], [''t2'', ''t1''], [''t1'', ''t3'']]
     = Inr [[''t1'', ''t2''], [''t1'', ''t3'']]"
    by (simp add: enumerate_topo_def get_topo_af_def)
  have h: "\<forall>el\<in>set [[''t1'', ''t2''], [''t2'', ''t1''], [''t1'', ''t3'']]. length el = arity Bond"
    by simp
  show ?thesis
    using run enumerate_topo_unique_first_occurrence [OF h] by (rule conjI)
qed

text \<open>
  Claim C9. Enumerating the enumerator's own output returns it unchanged, and the output
  does not depend on the ordering in which the duplicate occurrences are written: an
  input that agrees with \<open>xs\<close> on the first occurrences and holds, at every other position,
  any tuple equivalent to the one of \<open>xs\<close>, gives the same output.
\<close>

theorem enumerate_topo_idempotent:
  assumes "\<forall>el\<in>set xs. length el = arity k"
  shows "\<exists>ys. enumerate_topo k (arity k) xs = Inr ys
      \<and> enumerate_topo k (arity k) ys = Inr ys
      \<and> (\<forall>xs'. length xs' = length xs
            \<and> (\<forall>i<length xs. if first_occurrence k xs i then xs' ! i = xs ! i
                               else sym_equiv k (xs ! i) (xs' ! i))
            \<longrightarrow> enumerate_topo k (arity k) xs' = Inr ys)"
proof -
  define ys where "ys = foldl (accept k) [] xs"
  have run: "enumerate_topo k (arity k) xs = Inr ys"
    using enumerate_loop_pure[OF assms, of "[]"] by (simp add: enumerate_topo_def ys_def)
  have sw: "sorted_wrt (\<lambda>a b. \<not> sym_equiv k a b) ys"
    and sub: "set ys \<subseteq> set xs"
    and ch: "ys = map ((!) xs) (filter (first_occurrence k xs) [0..<length xs])"
    using foldl_accept_char[of k xs] unfolding ys_def by blast+
  have "\<forall>el\<in>set ys. length el = arity k" using sub assms by blast
  then have "enumerate_topo k (arity k) ys = Inr (foldl (accept k) [] ys)"
    using enumerate_loop_pure[of ys k "[]"] by (simp add: enumerate_topo_def)
  then have idem: "enumerate_topo k (arity k) ys = Inr ys"
    using foldl_accept_fixed[of k "[]" ys] sw by simp
  have other: "enumerate_topo k (arity k) xs' = Inr ys"
    if len: "length xs' = length xs"
      and pt: "\<forall>i<length xs. if first_occurrence k xs i then xs' ! i = xs ! i
                               else sym_equiv k (xs ! i) (xs' ! i)"
    for xs'
  proof -
    have eqv: "sym_equiv k (xs ! i) (xs' ! i)" if "i < length xs" for i
      using pt that sym_equiv_refl by (metis (full_types))
    have lens': "\<forall>el\<in>set xs'. length el = arity k"
    proof
      fix el assume "el \<in> set xs'"
      then obtain i where i: "i < length xs'" "el = xs' ! i" by (metis in_set_conv_nth)
      then have "length el = length (xs ! i)" using eqv len sym_equiv_length by metis
      then show "length el = arity k" using assms i len by simp
    qed
    have same: "sym_equiv k (xs' ! j) (xs' ! i) = sym_equiv k (xs ! j) (xs ! i)"
      if "i < length xs" "j < length xs" for i j
      using eqv[OF that(1)] eqv[OF that(2)] sym_equiv_sym sym_equiv_trans by blast
    have fo: "first_occurrence k xs' i = first_occurrence k xs i" if "i < length xs" for i
      unfolding first_occurrence_iff using same that by auto
    have "filter (first_occurrence k xs') [0..<length xs'] = filter (first_occurrence k xs) [0..<length xs]"
      unfolding len by (rule filter_cong) (auto simp: fo)
    moreover have "map ((!) xs') (filter (first_occurrence k xs) [0..<length xs])
        = map ((!) xs) (filter (first_occurrence k xs) [0..<length xs])"
      by (rule map_cong) (use pt in auto)
    ultimately show ?thesis using enumerate_topo_char[OF lens'] ch by simp
  qed
  show ?thesis using run idem other by blast
qed

theorem enumerate_topo_idempotent_witness:
  "enumerate_topo Bond (arity Bond) [[''t1'', ''t2''], [''t2'', ''t1'']] = Inr [[''t1'', ''t2'']]
   \<and> (\<exists>ys. enumerate_topo Bond (arity Bond) [[''t1'', ''t2''], [''t2'', ''t1'']] = Inr ys
      \<and> enumerate_topo Bond (arity Bond) ys = Inr ys
      \<and> (\<forall>xs'. length xs' = length [[''t1'', ''t2''], [''t2'', ''t1'']]
            \<and> (\<forall>i<length [[''t1'', ''t2''], [''t2'', ''t1'']].
                  if first_occurrence Bond [[''t1'', ''t2''], [''t2'', ''t1'']] i
                  then xs' ! i = [[''t1'', ''t2''], [''t2'', ''t1'']] ! i
                  else sym_equiv Bond ([[''t1'', ''t2''], [''t2'', ''t1'']] ! i) (xs' ! i))
            \<longrightarrow> enumerate_topo Bond (arity Bond) xs' = Inr ys))"
proof -
  have run: "enumerate_topo Bond (arity Bond) [[''t1'', ''t2''], [''t2'', ''t1'']] = Inr [[''t1'', ''t2'']]"
    by (simp add: enumerate_topo_def get_topo_af_def)
  have h: "\<forall>el\<in>set [[''t1'', ''t2''], [''t2'', ''t1'']]. length el = arity Bond"
    by simp
  show ?thesis
    using run enumerate_topo_idempotent [OF h] by (rule conjI)
qed

section \<open>The closure of the atom types under overrides\<close>

lemma overrides_of_reachable:
  "t \<in> reachable types S \<Longrightarrow> overrides_of types t \<subseteq> reachable types S"
  by (auto simp: overrides_of_def split: if_splits option.splits intro: reachable.step)

lemma reachable_closed:
  assumes "S \<subseteq> K" "\<forall>t\<in>K. overrides_of types t \<subseteq> K"
  shows "reachable types S \<subseteq> K"
proof
  fix y assume "y \<in> reachable types S"
  then show "y \<in> K"
  proof (induction rule: reachable.induct)
    case (base t)
    then show ?case using assms(1) by blast
  next
    case (step t atom overrides y)
    then have "y \<in> overrides_of types t" by (force simp: overrides_of_def)
    then show ?case using assms(2) step.IH by blast
  qed
qed

lemma getitem_Inl: "getitem d k = Inl e \<Longrightarrow> e = KeyError k \<and> \<not> has_key d k"
  by (auto simp: getitem_def has_key_def map_of_eq_None_iff split: option.splits)

lemma getitem_has_key: "has_key d k \<Longrightarrow> \<exists>v. getitem d k = Inr v"
  by (cases "map_of d k") (auto simp: getitem_def has_key_def map_of_eq_None_iff)

lemma type_loop_error:
  "type_loop t types r = Inl e \<Longrightarrow>
     (e = KeyError ''name'' \<or> e = KeyError ''class'') \<and> (\<exists>atom\<in>set types. \<not> well_formed_type atom)"
proof (induction types arbitrary: r)
  case Nil
  then show ?case by (cases r) simp
next
  case (Cons atom rest)
  obtain atd ov where r: "r = (atd, ov)" by (cases r)
  show ?case
  proof (cases "well_formed_type atom")
    case False
    from Cons.prems have "e = KeyError ''name'' \<or> e = KeyError ''class'' \<or> (\<exists>r'. type_loop t rest r' = Inl e)"
      unfolding r by (auto split: sum.splits if_splits option.splits dest: getitem_Inl)
    then show ?thesis using False Cons.IH by auto
  next
    case True
    then obtain n c where "getitem (attrib atom) ''name'' = Inr n" "getitem (attrib atom) ''class'' = Inr c"
      using getitem_has_key unfolding well_formed_type_def by blast
    with Cons.prems have "\<exists>r'. type_loop t rest r' = Inl e"
      unfolding r by (auto split: if_splits option.splits)
    then show ?thesis using Cons.IH by auto
  qed
qed

lemma atom_type_loop_error:
  "atom_type_loop types ts r = Inl e \<Longrightarrow>
     (e = KeyError ''name'' \<or> e = KeyError ''class'') \<and> (\<exists>atom\<in>set types. \<not> well_formed_type atom)"
proof (induction ts arbitrary: r)
  case Nil
  then show ?case by simp
next
  case (Cons t ts)
  then show ?case
    by (cases "type_loop t types r") (auto dest: type_loop_error)
qed

lemma resolve_pass_error:
  "resolve_pass types atd = Inl e \<Longrightarrow>
     (e = KeyError ''name'' \<or> e = KeyError ''class'') \<and> (\<exists>atom\<in>set types. \<not> well_formed_type atom)"
  unfolding resolve_pass_def by (rule atom_type_loop_error)

lemma distinct_overrides_loop:
  "distinct (map fst ov) \<Longrightarrow> distinct (map fst (overrides_loop atd os ov))"
  by (induction os arbitrary: ov) (simp_all add: distinct_update)

lemma type_loop_distinct:
  "type_loop t types (atd, ov) = Inr (atd', ov') \<Longrightarrow> distinct (map fst ov) \<Longrightarrow> distinct (map fst ov')"
proof (induction types arbitrary: atd ov)
  case Nil
  then show ?case by simp
next
  case (Cons atom rest)
  from Cons.prems(1) obtain atd1 ov1 where
    1: "type_loop t rest (atd1, ov1) = Inr (atd', ov')"
    and 2: "ov1 = ov \<or> (\<exists>a os. ov1 = overrides_loop a os ov)"
    by (auto split: sum.splits if_splits option.splits)
  from 2 Cons.prems(2) have "distinct (map fst ov1)" by (auto simp: distinct_overrides_loop)
  then show ?case using Cons.IH[OF 1] by simp
qed

lemma atom_type_loop_distinct:
  "atom_type_loop types ts (atd, ov) = Inr (atd', ov') \<Longrightarrow> distinct (map fst ov) \<Longrightarrow> distinct (map fst ov')"
proof (induction ts arbitrary: atd ov)
  case Nil
  then show ?case by simp
next
  case (Cons t ts)
  from Cons.prems(1) obtain atd1 ov1 where
    1: "type_loop t types (atd, ov) = Inr (atd1, ov1)"
    and 2: "atom_type_loop types ts (atd1, ov1) = Inr (atd', ov')"
    by (auto split: sum.splits)
  show ?case using Cons.IH[OF 2] type_loop_distinct[OF 1 Cons.prems(2)] by simp
qed

lemma resolve_pass_distinct:
  "resolve_pass types atd = Inr (atd', ov) \<Longrightarrow> distinct (map fst ov)"
  unfolding resolve_pass_def using atom_type_loop_distinct[of types _ atd "[]" atd' ov] by simp

lemma resolve_loop_spec:
  "resolve_loop types atd out = (out', res) \<Longrightarrow> fst ` set atd \<subseteq> reachable types S \<Longrightarrow>
    \<exists>ks. out' = out @ map note_line ks \<and> distinct ks \<and> set ks \<inter> fst ` set atd = {}
       \<and> set ks \<subseteq> reachable types S
       \<and> (case res of
            Inr atd' \<Rightarrow> fst ` set atd' = fst ` set atd \<union> set ks
                        \<and> (\<forall>t\<in>fst ` set atd'. overrides_of types t \<subseteq> fst ` set atd')
          | Inl e \<Rightarrow> (e = KeyError ''name'' \<or> e = KeyError ''class'')
                        \<and> (\<exists>atom\<in>set types. \<not> well_formed_type atom))"
proof (induction types atd out arbitrary: out' res rule: resolve_loop.induct)
  case (1 types atd out)
  show ?case
  proof (cases "resolve_pass types atd")
    case (Inl e)
    then have "out' = out" "res = Inl e" using "1.prems"(1) by (simp_all add: resolve_loop.simps)
    then show ?thesis using resolve_pass_error[OF Inl] by (intro exI[of _ "[]"]) simp
  next
    case (Inr p)
    obtain atd1 ov where p: "p = (atd1, ov)" by (cases p)
    have pass: "resolve_pass types atd = Inr (atd1, ov)" using Inr p by simp
    note k1 = resolve_pass_keys(1)[OF pass] and k2 = resolve_pass_keys(2)[OF pass]
    have d: "distinct (map fst ov)" by (rule resolve_pass_distinct[OF pass])
    have ovr: "fst ` set ov \<subseteq> reachable types S"
      unfolding k2 using "1.prems"(2) overrides_of_reachable by blast
    show ?thesis
    proof (cases "ov = []")
      case True
      then have "out' = out" "res = Inr atd1"
        using "1.prems"(1) pass by (simp_all add: resolve_loop.simps dict_update_def)
      moreover have "\<forall>t\<in>fst ` set atd1. overrides_of types t \<subseteq> fst ` set atd1"
        using k2 True unfolding k1 by auto
      ultimately show ?thesis using k1 by (intro exI[of _ "[]"]) simp
    next
      case False
      let ?atd2 = "dict_update atd1 ov"
      let ?out2 = "out @ map (\<lambda>(key, v). note_line key) ov"
      have rec: "resolve_loop types ?atd2 ?out2 = (out', res)"
        using "1.prems"(1) pass False by (simp add: resolve_loop.simps)
      have keys2: "fst ` set ?atd2 = fst ` set atd \<union> fst ` set ov"
        by (simp only: keys_dict_update k1)
      have sub2: "fst ` set ?atd2 \<subseteq> reachable types S"
        unfolding keys2 using "1.prems"(2) ovr by blast
      have "0 < length ov" using False by simp
      from "1.IH"[OF pass refl this rec sub2]
      obtain ks where ks: "out' = ?out2 @ map note_line ks" "distinct ks"
        "set ks \<inter> fst ` set ?atd2 = {}" "set ks \<subseteq> reachable types S"
        "case res of
            Inr atd' \<Rightarrow> fst ` set atd' = fst ` set ?atd2 \<union> set ks
                        \<and> (\<forall>t\<in>fst ` set atd'. overrides_of types t \<subseteq> fst ` set atd')
          | Inl e \<Rightarrow> (e = KeyError ''name'' \<or> e = KeyError ''class'')
                        \<and> (\<exists>atom\<in>set types. \<not> well_formed_type atom)"
        by blast
      let ?ks = "map fst ov @ ks"
      have n: "map (\<lambda>(key, v). note_line key) ov = map note_line (map fst ov)"
        by (simp add: case_prod_beta)
      have a: "out' = out @ map note_line ?ks" using ks(1) n by simp
      have b: "distinct ?ks" using d ks(2,3) unfolding keys2 by auto
      have c: "set ?ks \<inter> fst ` set atd = {}" using ks(3) k2 unfolding keys2 by auto
      have e: "set ?ks \<subseteq> reachable types S" using ks(4) ovr by auto
      have f: "case res of
            Inr atd' \<Rightarrow> fst ` set atd' = fst ` set atd \<union> set ?ks
                        \<and> (\<forall>t\<in>fst ` set atd'. overrides_of types t \<subseteq> fst ` set atd')
          | Inl e \<Rightarrow> (e = KeyError ''name'' \<or> e = KeyError ''class'')
                        \<and> (\<exists>atom\<in>set types. \<not> well_formed_type atom)"
      proof (cases res)
        case (Inl e)
        with ks(5) show ?thesis by simp
      next
        case (Inr b)
        note q = ks(5)[unfolded Inr sum.case]
        have A: "fst ` set b = fst ` set ?atd2 \<union> set ks" by (rule q[THEN conjunct1])
        have B: "\<forall>t\<in>fst ` set b. overrides_of types t \<subseteq> fst ` set b" by (rule q[THEN conjunct2])
        have A': "fst ` set b = fst ` set atd \<union> set ?ks"
          using A unfolding keys2 by (simp add: Un_assoc)
        show ?thesis unfolding Inr sum.case using A' B by (rule conjI)
      qed
      show ?thesis using a b c e f by blast
    qed
  qed
qed

lemma keys_initial_atom_types_aux:
  "fst ` set (foldl (\<lambda>d name. if \<not> has_key d name then AList.update name [] d else d) d names)
     = fst ` set d \<union> set names"
  by (induction names arbitrary: d) (auto simp: has_key_keys dom_update)

lemma keys_initial_atom_types: "fst ` set (initial_atom_types names) = set names"
  by (simp add: initial_atom_types_def keys_initial_atom_types_aux)

lemma resolve_atom_types_spec:
  assumes "resolve_atom_types types names = (out, res)"
  shows "\<exists>ks. out = map note_line ks \<and> distinct ks \<and> set ks \<inter> set names = {}
       \<and> set ks \<subseteq> reachable types (set names)
       \<and> (case res of
            Inr atd \<Rightarrow> fst ` set atd = set names \<union> set ks
                        \<and> fst ` set atd = reachable types (set names)
          | Inl e \<Rightarrow> (e = KeyError ''name'' \<or> e = KeyError ''class'')
                        \<and> (\<exists>atom\<in>set types. \<not> well_formed_type atom))"
proof -
  have run: "resolve_loop types (initial_atom_types names) [] = (out, res)"
    using assms by (simp add: resolve_atom_types_def)
  have sub: "fst ` set (initial_atom_types names) \<subseteq> reachable types (set names)"
    unfolding keys_initial_atom_types by (auto intro: reachable.base)
  from resolve_loop_spec[OF run sub]
  obtain ks where ks: "out = [] @ map note_line ks" "distinct ks"
    "set ks \<inter> fst ` set (initial_atom_types names) = {}" "set ks \<subseteq> reachable types (set names)"
    "case res of
        Inr atd' \<Rightarrow> fst ` set atd' = fst ` set (initial_atom_types names) \<union> set ks
                    \<and> (\<forall>t\<in>fst ` set atd'. overrides_of types t \<subseteq> fst ` set atd')
      | Inl e \<Rightarrow> (e = KeyError ''name'' \<or> e = KeyError ''class'')
                    \<and> (\<exists>atom\<in>set types. \<not> well_formed_type atom)"
    by blast
  have "case res of
            Inr atd \<Rightarrow> fst ` set atd = set names \<union> set ks
                        \<and> fst ` set atd = reachable types (set names)
          | Inl e \<Rightarrow> (e = KeyError ''name'' \<or> e = KeyError ''class'')
                        \<and> (\<exists>atom\<in>set types. \<not> well_formed_type atom)"
  proof (cases res)
    case (Inl e)
    with ks(5) show ?thesis by simp
  next
    case (Inr b)
    note q = ks(5)[unfolded Inr sum.case keys_initial_atom_types]
    have A: "fst ` set b = set names \<union> set ks" by (rule q[THEN conjunct1])
    have B: "\<forall>t\<in>fst ` set b. overrides_of types t \<subseteq> fst ` set b" by (rule q[THEN conjunct2])
    have "set names \<subseteq> fst ` set b" using A by blast
    then have "reachable types (set names) \<subseteq> fst ` set b" using B by (rule reachable_closed)
    moreover have "fst ` set b \<subseteq> reachable types (set names)"
      unfolding A using ks(4) by (auto intro: reachable.base)
    ultimately have "fst ` set b = reachable types (set names)" by (rule subset_antisym[rotated])
    with A show ?thesis unfolding Inr sum.case by (rule conjI)
  qed
  then show ?thesis using ks(1,2,3,4) unfolding keys_initial_atom_types by auto
qed

text \<open>
  Claim C4. The resolution loop is a total function: it ends for every structure and
  document. When it returns, the keys of the type-to-class map are exactly the
  identifiers reachable from the structure's atom types through \<^verbatim>\<open>overrides\<close> lists, so
  an override target that the structure lacks is a key. The only exceptions it raises are
  the lookups of \<^verbatim>\<open>name\<close> and \<^verbatim>\<open>class\<close> on a \<^verbatim>\<open>Type\<close> element that lacks them: an
  override target with no definition raises nothing.
\<close>

theorem resolve_atom_types_closure:
  "case resolve_atom_types types names of
     (out, Inr atom_type_dict) \<Rightarrow> fst ` set atom_type_dict = reachable types (set names)
   | (out, Inl e) \<Rightarrow> (e = KeyError ''name'' \<or> e = KeyError ''class'')
                      \<and> (\<exists>atom\<in>set types. \<not> well_formed_type atom)"
proof -
  obtain out res where run: "resolve_atom_types types names = (out, res)"
    by (cases "resolve_atom_types types names")
  from resolve_atom_types_spec[OF run] show ?thesis
    unfolding run by (cases res) auto
qed

lemma run_XY:
  "resolve_atom_types
     [Element ''Type'' [(''name'', ''X''), (''class'', ''CX''), (''overrides'', ''Y'')] []] [''X'']
   = ([note_line ''Y''], Inr [(''X'', ''CX''), (''Y'', '''')])"
  by (simp add: resolve_atom_types_def initial_atom_types_def resolve_loop.simps resolve_pass_def
      has_key_def getitem_def dict_update_def)

theorem resolve_atom_types_closure_witness:
  "resolve_atom_types
     [Element ''Type'' [(''name'', ''X''), (''class'', ''CX''), (''overrides'', ''Y'')] []] [''X'']
   = ([note_line ''Y''], Inr [(''X'', ''CX''), (''Y'', '''')])
   \<and> fst ` set [(''X'', ''CX''), (''Y'', '''')]
     = reachable [Element ''Type'' [(''name'', ''X''), (''class'', ''CX''), (''overrides'', ''Y'')] []]
         (set [''X''])"
  using resolve_atom_types_closure
    [of "[Element ''Type'' [(''name'', ''X''), (''class'', ''CX''), (''overrides'', ''Y'')] []]" "[''X'']"]
  unfolding run_XY by simp

section \<open>The notes of the resolution\<close>

lemma inj_note_line: "inj note_line"
  by (rule injI) (simp add: note_line_def)

lemma run_XY_defined:
  "resolve_atom_types
     [Element ''Type'' [(''name'', ''X''), (''class'', ''CX''), (''overrides'', ''Y'')] [],
      Element ''Type'' [(''name'', ''Y''), (''class'', ''CY'')] []] [''X'']
   = ([note_line ''Y''], Inr [(''X'', ''CX''), (''Y'', ''CY'')])"
  by (simp add: resolve_atom_types_def initial_atom_types_def resolve_loop.simps resolve_pass_def
      has_key_def getitem_def dict_update_def)

lemma run_XZ:
  "resolve_atom_types
     [Element ''Type'' [(''name'', ''X''), (''class'', ''CX''), (''overrides'', ''Z'')] []] [''X'', ''Z'']
   = ([], Inr [(''X'', ''CX''), (''Z'', '''')])"
  by (simp add: resolve_atom_types_def initial_atom_types_def resolve_loop.simps resolve_pass_def
      has_key_def getitem_def dict_update_def)

text \<open>
  Claim C6, as stated, fails. \<open>Y\<close> is an override target with a definition of its own: it
  is reported and then resolved to the class \<open>CY\<close>. \<open>Z\<close> is an override target that the
  structure has and the document does not define: it is never resolved and not reported.
\<close>

theorem note_iff_unresolved_counterexample:
  "noted (resolve_atom_types
     [Element ''Type'' [(''name'', ''X''), (''class'', ''CX''), (''overrides'', ''Y'')] [],
      Element ''Type'' [(''name'', ''Y''), (''class'', ''CY'')] []] [''X'']) ''Y''
   \<and> resolved_to_class (resolve_atom_types
     [Element ''Type'' [(''name'', ''X''), (''class'', ''CX''), (''overrides'', ''Y'')] [],
      Element ''Type'' [(''name'', ''Y''), (''class'', ''CY'')] []] [''X'']) ''Y''
   \<and> \<not> noted (resolve_atom_types
     [Element ''Type'' [(''name'', ''X''), (''class'', ''CX''), (''overrides'', ''Z'')] []] [''X'', ''Z'']) ''Z''
   \<and> \<not> resolved_to_class (resolve_atom_types
     [Element ''Type'' [(''name'', ''X''), (''class'', ''CX''), (''overrides'', ''Z'')] []] [''X'', ''Z'']) ''Z''"
  unfolding run_XY_defined run_XZ by (simp add: noted_def resolved_to_class_def)

text \<open>
  Claim C6, amended. When the resolution returns, an identifier is reported if and only
  if it is reachable through \<^verbatim>\<open>overrides\<close> lists and is not an atom type of the
  structure, whether or not it is resolved to a class; no line is printed twice.
\<close>

theorem note_iff_not_in_structure:
  assumes "resolve_atom_types types names = (out, Inr atom_type_dict)"
  shows "(noted (out, Inr atom_type_dict) y \<longleftrightarrow> y \<in> reachable types (set names) \<and> y \<notin> set names)
       \<and> distinct out"
proof -
  from resolve_atom_types_spec[OF assms]
  obtain ks where ks: "out = map note_line ks" "distinct ks" "set ks \<inter> set names = {}"
    "fst ` set atom_type_dict = set names \<union> set ks"
    "fst ` set atom_type_dict = reachable types (set names)"
    by auto
  have "set ks = reachable types (set names) - set names"
    using ks(3,4,5) by blast
  moreover have "note_line y \<in> set out \<longleftrightarrow> y \<in> set ks"
    unfolding ks(1) using inj_note_line by (auto dest: injD)
  moreover have "distinct out"
    unfolding ks(1) using ks(2) by (simp add: distinct_map inj_on_subset[OF inj_note_line subset_UNIV])
  ultimately show ?thesis by (simp add: noted_def)
qed

theorem note_iff_not_in_structure_witness:
  "resolve_atom_types
     [Element ''Type'' [(''name'', ''X''), (''class'', ''CX''), (''overrides'', ''Y'')] [],
      Element ''Type'' [(''name'', ''Y''), (''class'', ''CY'')] []] [''X'']
   = ([note_line ''Y''], Inr [(''X'', ''CX''), (''Y'', ''CY'')])
   \<and> ((noted ([note_line ''Y''], Inr [(''X'', ''CX''), (''Y'', ''CY'')]) ''Y'' \<longleftrightarrow>
        ''Y'' \<in> reachable
           [Element ''Type'' [(''name'', ''X''), (''class'', ''CX''), (''overrides'', ''Y'')] [],
            Element ''Type'' [(''name'', ''Y''), (''class'', ''CY'')] []] (set [''X''])
        \<and> ''Y'' \<notin> set [''X''])
      \<and> distinct [note_line ''Y''])"
  using run_XY_defined note_iff_not_in_structure [OF run_XY_defined, of "''Y''"] by (rule conjI)

section \<open>The exceptions of \<^verbatim>\<open>forcefield_trim\<close>\<close>



















text \<open>
  Claim C10. Both documents are parsed before the type of \<^verbatim>\<open>typed_molecule\<close> is looked at:
  an input document that does not parse gives a parse error whatever \<^verbatim>\<open>typed_molecule\<close> is,
  and a \<^verbatim>\<open>ValueError\<close> is raised only when both documents have parsed.
\<close>

theorem parse_before_type_check:
  "(input_xml = None \<longrightarrow>
      raised (forcefield_trim blank_xml input_xml typed_molecule output_xml) = Some ParseError)
   \<and> (raised (forcefield_trim blank_xml input_xml typed_molecule output_xml) = Some ValueError \<longrightarrow>
        blank_xml \<noteq> None \<and> input_xml \<noteq> None)"
  by (cases blank_xml; cases input_xml) (simp_all add: forcefield_trim_def)

theorem parse_before_type_check_witness:
  "raised (forcefield_trim (Some (Element ''ForceField'' [] [])) None Other_object (\<lambda>doc. None))
     = Some ParseError
   \<and> raised (forcefield_trim (Some (Element ''ForceField'' [] [])) (Some (Element ''ForceField'' [] []))
        Other_object (\<lambda>doc. None)) = Some ValueError"
proof -
  have "raised (forcefield_trim (Some (Element ''ForceField'' [] [])) None Other_object (\<lambda>doc. None))
      = Some ParseError"
    using parse_before_type_check
      [of None "Some (Element ''ForceField'' [] [])" Other_object "\<lambda>doc. None"]
    by simp
  moreover have "raised (forcefield_trim (Some (Element ''ForceField'' [] []))
      (Some (Element ''ForceField'' [] [])) Other_object (\<lambda>doc. None)) = Some ValueError"
    by (simp add: forcefield_trim_def)
  ultimately show ?thesis by (rule conjI)
qed

section \<open>The matcher selects the most specific record\<close>

lemma identify_schema_foldl:
  "foldl (\<lambda>(schema, weight) i.
              if has_key topo (class_key i)
              then (schema @ [class_key i], weight + 1)
              else (schema @ [type_key i], weight)) (s, w) is
   = (s @ map (schema_key topo) is, w + length (filter (\<lambda>i. has_key topo (class_key i)) is))"
  by (induction "is" arbitrary: s w) (simp_all add: schema_key_def)

lemma identify_schema_char:
  "identify_schema topo n =
     (map (schema_key topo) [1..<n + 1], length (filter (\<lambda>i. has_key topo (class_key i)) [1..<n + 1]))"
  unfolding identify_schema_def identify_schema_foldl by simp

lemma digit_char_digit: "d < 10 \<Longrightarrow> digit_char d \<in> set ''0123456789''"
  unfolding digit_char_def by (rule nth_mem) simp

lemma str_nat_digits: "set (str_nat n) \<subseteq> set ''0123456789''"
proof (induction n rule: str_nat.induct)
  case (1 n)
  show ?case
  proof (cases "n < 10")
    case True
    then show ?thesis using digit_char_digit[of n] by (subst str_nat.simps) simp
  next
    case False
    have "digit_char (n mod 10) \<in> set ''0123456789''" by (rule digit_char_digit) simp
    then show ?thesis using False "1.IH" by (subst str_nat.simps) simp
  qed
qed

lemma is_substring_digits:
  "set d \<subseteq> set ''0123456789'' \<Longrightarrow> \<not> is_substring ''class'' d"
  by (induction d) auto

lemma is_substring_class_key: "is_substring ''class'' (class_key i)"
  by (simp add: class_key_def)

lemma is_substring_type_key: "\<not> is_substring ''class'' (type_key i)"
  using is_substring_digits[OF str_nat_digits, of i] by (simp add: type_key_def)

lemma switch_class_key [simp]: "switch_class_type (class_key i) c t = c"
  by (simp add: switch_class_type_def is_substring_class_key)

lemma switch_type_key [simp]: "switch_class_type (type_key i) c t = t"
  by (simp add: switch_class_type_def is_substring_type_key)

lemma getitem_lookup: "has_key d k \<Longrightarrow> getitem d k = Inr (lookup d k)"
  by (cases "map_of d k") (auto simp: getitem_def lookup_def has_key_def map_of_eq_None_iff)

lemma position_loop_pure:
  "length seq_test \<le> length sch - i \<Longrightarrow>
   \<forall>key\<in>set (take (length seq_test) (drop i sch)). has_key topo key \<Longrightarrow>
   \<forall>a\<in>set seq_test. has_key atd a \<Longrightarrow>
   position_loop atd topo sch i seq_test m c =
     Inr (m @ map (\<lambda>(key, a). lookup topo key = switch_class_type key (lookup atd a) a)
                (zip (drop i sch) seq_test),
          c @ map (\<lambda>(key, a). lookup topo key) (zip (drop i sch) seq_test))"
proof (induction seq_test arbitrary: i m c)
  case Nil
  then show ?case by simp
next
  case (Cons a rest)
  have i: "i < length sch" using Cons.prems(1) by simp
  have d: "drop i sch = sch ! i # drop (i + 1) sch" using i by (simp add: Cons_nth_drop_Suc)
  have k: "has_key topo (sch ! i)" using Cons.prems(2) d by simp
  have a: "has_key atd a" using Cons.prems(3) by simp
  have 1: "length rest \<le> length sch - (i + 1)" using Cons.prems(1) by simp
  have 2: "\<forall>key\<in>set (take (length rest) (drop (i + 1) sch)). has_key topo key"
    using Cons.prems(2) d by simp
  have 3: "\<forall>a\<in>set rest. has_key atd a" using Cons.prems(3) by simp
  show ?case
    using i Cons.IH[OF 1 2 3] by (simp add: getitem_lookup[OF k] getitem_lookup[OF a] d)
qed

text \<open>Whatever it tests, a position loop that returns has collected the record's values.\<close>

lemma position_loop_collection:
  "position_loop atd topo sch i seq_test m c = Inr (m', c') \<Longrightarrow>
     c' = c @ map (lookup topo) (take (length seq_test) (drop i sch))
     \<and> length seq_test \<le> length sch - i"
proof (induction seq_test arbitrary: i m c)
  case Nil
  then show ?case by simp
next
  case (Cons a rest)
  have i: "i < length sch" using Cons.prems by (auto split: if_splits)
  have d: "drop i sch = sch ! i # drop (i + 1) sch" using i by (simp add: Cons_nth_drop_Suc)
  from Cons.prems i obtain v cls where v: "getitem topo (sch ! i) = Inr v"
    and r: "position_loop atd topo sch (i + 1) rest
              (m @ [v = switch_class_type (sch ! i) cls a]) (c @ [v]) = Inr (m', c')"
    by (auto split: sum.splits)
  have "v = lookup topo (sch ! i)"
    using v by (auto simp: getitem_def lookup_def split: option.splits)
  then have "c' = c @ map (lookup topo) (take (length (a # rest)) (drop i sch))"
    using Cons.IH[OF r] d by simp
  moreover have "length (a # rest) \<le> length sch - i"
    using Cons.IH[OF r, THEN conjunct2] i by simp
  ultimately show ?case by (rule conjI)
qed

lemma classify_char:
  "classify n x = \<lparr>schema = map (schema_key (attrib x)) [1..<n + 1],
                   weight = class_count n (attrib x), topo_attrib = attrib x\<rparr>"
  by (simp add: classify_def identify_schema_char class_count_def)

lemma map_of_lookup: "has_key d k \<Longrightarrow> map_of d k = Some (lookup d k)"
  by (cases "map_of d k") (auto simp: lookup_def has_key_def map_of_eq_None_iff)

lemma has_key_map_of: "has_key d k \<longleftrightarrow> map_of d k \<noteq> None"
  by (simp add: has_key_def map_of_eq_None_iff)

lemma test_constraint:
  assumes "has_key topo (class_key i) \<or> has_key topo (type_key i)" "has_key atd a"
  shows "(lookup topo (schema_key topo i) = switch_class_type (schema_key topo i) (lookup atd a) a)
         = constraint_ok atd topo i a"
proof (cases "has_key topo (class_key i)")
  case True
  then show ?thesis
    using map_of_lookup[OF True] map_of_lookup[OF assms(2)]
    by (auto simp: schema_key_def constraint_ok_def)
next
  case False
  then have t: "has_key topo (type_key i)" using assms(1) by simp
  have "map_of topo (class_key i) = None" using False by (simp add: has_key_map_of)
  then show ?thesis
    using False map_of_lookup[OF t] by (auto simp: schema_key_def constraint_ok_def)
qed

lemma well_formed_schema:
  "well_formed_record n topo \<Longrightarrow> \<forall>key\<in>set (map (schema_key topo) [1..<n + 1]). has_key topo key"
  by (auto simp: well_formed_record_def list_all_iff schema_key_def)

lemma position_loop_entry:
  assumes wf: "well_formed_record n topo" and len: "length seq_test = n"
    and at: "\<forall>a\<in>set seq_test. has_key atd a"
  shows "\<exists>m. position_loop atd topo (map (schema_key topo) [1..<n + 1]) 0 seq_test [] []
           = Inr (m, map (lookup topo) (map (schema_key topo) [1..<n + 1]))
         \<and> list_all id m = satisfies atd topo seq_test"
proof -
  let ?sch = "map (schema_key topo) [1..<n + 1]"
  let ?test = "\<lambda>(key, a). lookup topo key = switch_class_type key (lookup atd a) a"
  have 1: "length seq_test \<le> length ?sch - 0" using len by simp
  have 2: "\<forall>key\<in>set (take (length seq_test) (drop 0 ?sch)). has_key topo key"
    using well_formed_schema[OF wf] len by simp
  have run: "position_loop atd topo ?sch 0 seq_test [] [] =
      Inr ([] @ map ?test (zip (drop 0 ?sch) seq_test),
           [] @ map (\<lambda>(key, a). lookup topo key) (zip (drop 0 ?sch) seq_test))"
    by (rule position_loop_pure[OF 1 2 at])
  have c: "map (\<lambda>(key, a). lookup topo key) (zip ?sch seq_test) = map (lookup topo) ?sch"
  proof -
    have "map (\<lambda>(key, a). lookup topo key) (zip ?sch seq_test) = map (lookup topo) (map fst (zip ?sch seq_test))"
      by (simp add: case_prod_beta)
    also have "map fst (zip ?sch seq_test) = ?sch" using len by (simp del: map_map)
    finally show ?thesis .
  qed
  have z: "zip ?sch seq_test = map (\<lambda>(i, a). (schema_key topo i, a)) (zip [1..<n + 1] seq_test)"
    by (simp add: zip_map1)
  have "list_all id (map ?test (zip ?sch seq_test))
      = list_all (\<lambda>(i, a). lookup topo (schema_key topo i)
                   = switch_class_type (schema_key topo i) (lookup atd a) a) (zip [1..<n + 1] seq_test)"
    unfolding z by (simp add: list_all_iff case_prod_beta)
  also have "\<dots> = list_all (\<lambda>(i, a). constraint_ok atd topo i a) (zip [1..<n + 1] seq_test)"
  proof -
    have "\<And>i a. (i, a) \<in> set (zip [1..<n + 1] seq_test) \<Longrightarrow>
        (lookup topo (schema_key topo i) = switch_class_type (schema_key topo i) (lookup atd a) a)
        = constraint_ok atd topo i a"
    proof -
      fix i a assume m: "(i, a) \<in> set (zip [1..<n + 1] seq_test)"
      then have "i \<in> set [1..<n + 1]" "a \<in> set seq_test"
        by (auto dest: set_zip_leftD set_zip_rightD)
      then have "has_key topo (class_key i) \<or> has_key topo (type_key i)" "has_key atd a"
        using wf at by (auto simp: well_formed_record_def list_all_iff)
      then show "(lookup topo (schema_key topo i) = switch_class_type (schema_key topo i) (lookup atd a) a)
        = constraint_ok atd topo i a" by (rule test_constraint)
    qed
    then show ?thesis unfolding list_all_iff by auto
  qed
  finally have "list_all id (map ?test (zip ?sch seq_test)) = satisfies atd topo seq_test"
    by (simp add: satisfies_def len)
  then show ?thesis using run c by simp
qed

lemma sequences_length: "s \<in> set (sequences k) \<Longrightarrow> length s = arity k"
  by (cases k) auto

lemma sequence_loop_pure:
  assumes len: "length elem = arity k" and at: "\<forall>a\<in>set elem. has_key atd a"
    and wf: "well_formed_record (arity k) (attrib x)"
  shows "set seqs \<subseteq> set (sequences k) \<Longrightarrow>
     sequence_loop atd k elem (classify (arity k) x) seqs (st, nm) =
       Inr (if nm \<and> (\<exists>s\<in>set seqs. satisfies atd (attrib x) (map ((!) elem) s))
            then (record_match k (collection_of (arity k) (attrib x)) (attrib x) st, False)
            else (st, nm))"
proof (induction seqs arbitrary: st nm)
  case Nil
  show ?case by simp
next
  case (Cons s rest)
  have s: "s \<in> set (sequences k)" and rest: "set rest \<subseteq> set (sequences k)"
    using Cons.prems by auto
  show ?case
  proof (cases nm)
    case False
    then show ?thesis using Cons.IH[OF rest] by simp
  next
    case True
    have r: "reorder elem s = Inr (map ((!) elem) s)" by (rule reorder_sequences[OF len s])
    have l: "length (map ((!) elem) s) = arity k" using sequences_length[OF s] by simp
    have a: "\<forall>a\<in>set (map ((!) elem) s). has_key atd a"
      using at sequences_in_range[OF s] len by auto
    from position_loop_entry[OF wf l a] obtain m where
      m: "position_loop atd (attrib x) (map (schema_key (attrib x)) [1..<arity k + 1]) 0
            (map ((!) elem) s) [] [] = Inr (m, collection_of (arity k) (attrib x))"
      and h: "list_all id m = satisfies atd (attrib x) (map ((!) elem) s)"
      unfolding collection_of_def by blast
    show ?thesis
      using True r m h Cons.IH[OF rest] by (simp add: classify_char)
  qed
qed

lemma hit_could_match:
  assumes "length elem = arity k"
  shows "hit atd k elem topo = could_match atd k elem topo"
proof -
  have "(\<exists>s\<in>set (sequences k). satisfies atd topo (map ((!) elem) s))
      = (\<exists>u. Inr u \<in> set (map (reorder elem) (sequences k)) \<and> satisfies atd topo u)"
    using reorder_sequences[OF assms] by (auto simp: image_iff)
  then show ?thesis unfolding hit_def could_match_def sequences_sym_equiv[OF assms] .
qed

lemma entry_loop_pure:
  assumes len: "length elem = arity k" and at: "\<forall>a\<in>set elem. has_key atd a"
  shows "\<forall>e\<in>set es. \<exists>x. e = classify (arity k) x \<and> well_formed_record (arity k) (attrib x) \<Longrightarrow>
     entry_loop atd k elem es (st, nm) =
       Inr (if nm then
              (case find (\<lambda>e. hit atd k elem (topo_attrib e)) es of
                 None \<Rightarrow> (st, True)
               | Some e \<Rightarrow> (record_match k (collection_of (arity k) (topo_attrib e)) (topo_attrib e) st, False))
            else (st, False))"
proof (induction es arbitrary: st nm)
  case Nil
  show ?case by simp
next
  case (Cons e es)
  obtain x where e: "e = classify (arity k) x" and wf: "well_formed_record (arity k) (attrib x)"
    using Cons.prems by auto
  have rest: "\<forall>e\<in>set es. \<exists>x. e = classify (arity k) x \<and> well_formed_record (arity k) (attrib x)"
    using Cons.prems by simp
  have t: "topo_attrib e = attrib x" by (simp add: e classify_char)
  show ?case
    unfolding entry_loop.simps e sequence_loop_pure[OF len at wf subset_refl]
    using Cons.IH[OF rest] by (simp add: hit_def classify_char)
qed

lemma find_filter: "find P xs = (case filter P xs of [] \<Rightarrow> None | y # ys \<Rightarrow> Some y)"
  by (induction xs) auto

lemma sort_key_first:
  "(\<forall>p\<in>set pre. f y < f p) \<Longrightarrow> (\<forall>q\<in>set post. f y \<le> f q) \<Longrightarrow>
     \<exists>zs. sort_key f (pre @ y # post) = y # zs"
proof (induction pre)
  case Nil
  have "\<forall>z\<in>set (sort_key f post). f y \<le> f z" using Nil by simp
  then have "insort_key f y (sort_key f post) = y # sort_key f post" by (rule insort_is_Cons)
  then show ?case by simp
next
  case (Cons p pre)
  then obtain zs where zs: "sort_key f (pre @ y # post) = y # zs" by auto
  have "\<not> f p \<le> f y" using Cons.prems(1) by auto
  then show ?case using zs by simp
qed

lemma find_sort_key_preferred:
  fixes f :: "'a \<Rightarrow> nat"
  assumes i: "i < length es" "P (es ! i)"
    and best: "\<forall>j<length es. P (es ! j) \<longrightarrow> f (es ! i) < f (es ! j) \<or> (f (es ! i) = f (es ! j) \<and> i \<le> j)"
  shows "find P (sort_key f es) = Some (es ! i)"
proof -
  have split: "es = take i es @ es ! i # drop (Suc i) es"
    using i(1) by (simp add: id_take_nth_drop)
  have f: "filter P es = filter P (take i es) @ es ! i # filter P (drop (Suc i) es)"
    by (subst split) (simp add: i(2))
  have pre: "\<forall>p\<in>set (filter P (take i es)). f (es ! i) < f p"
  proof
    fix p assume "p \<in> set (filter P (take i es))"
    then obtain j where j: "j < i" "p = es ! j" "P p"
      using i(1) by (auto simp: in_set_conv_nth)
    then have "j < length es" "P (es ! j)" "\<not> i \<le> j" using i(1) by auto
    then have "f (es ! i) < f (es ! j)" using best by blast
    then show "f (es ! i) < f p" using j(2) by simp
  qed
  have post: "\<forall>q\<in>set (filter P (drop (Suc i) es)). f (es ! i) \<le> f q"
  proof
    fix q assume "q \<in> set (filter P (drop (Suc i) es))"
    then have "q \<in> set es" "P q" by (auto dest: in_set_dropD)
    then obtain j where j: "j < length es" "q = es ! j" "P (es ! j)"
      by (auto simp: in_set_conv_nth)
    then have "f (es ! i) < f (es ! j) \<or> f (es ! i) = f (es ! j) \<and> i \<le> j" using best by blast
    then show "f (es ! i) \<le> f q" using j(2) by auto
  qed
  obtain zs where "sort_key f (filter P es) = es ! i # zs"
    unfolding f using sort_key_first[OF pre post] by blast
  then have "filter P (sort_key f es) = es ! i # zs" by (simp add: filter_sort)
  then show ?thesis by (simp add: find_filter)
qed

lemma topo_entries_wf:
  assumes "\<forall>x\<in>set (iter xml_root (topo_tag k)). well_formed_record n (attrib x)"
  shows "\<forall>e\<in>set (topo_entries xml_root k n). \<exists>x. e = classify n x \<and> well_formed_record n (attrib x)"
  using assms by (auto simp: topo_entries_def topo_entry_temp_def)

text \<open>
  Claim C1. Take an interaction of a kind, with atom types the type map knows, and the
  candidate records of that kind in document order, each naming a class or a type at every
  position. If record \<open>i\<close> could match the interaction and every record \<open>j\<close> that could
  match it has more class-constrained positions, or as many and \<open>i \<le> j\<close>, then record \<open>i\<close>
  is the one the matcher selects: matching the interaction is \<open>record_match\<close> of record
  \<open>i\<close>, which emits it unless its collection has been recorded before.
\<close>

theorem most_specific_record_selected:
  assumes len: "length topo_element = arity k"
    and at: "\<forall>a\<in>set topo_element. has_key atom_type_dict a"
    and pool: "pool = iter xml_root (topo_tag k)"
    and wf: "\<forall>x\<in>set pool. well_formed_record (arity k) (attrib x)"
    and i: "i < length pool" "could_match atom_type_dict k topo_element (attrib (pool ! i))"
    and best: "\<forall>j<length pool. could_match atom_type_dict k topo_element (attrib (pool ! j)) \<longrightarrow>
                 class_count (arity k) (attrib (pool ! i)) < class_count (arity k) (attrib (pool ! j))
                 \<or> (class_count (arity k) (attrib (pool ! i)) = class_count (arity k) (attrib (pool ! j))
                     \<and> i \<le> j)"
  shows "match_element atom_type_dict k (topo_entries xml_root k (arity k)) st topo_element
       = Inr (record_match k (collection_of (arity k) (attrib (pool ! i))) (attrib (pool ! i)) st)"
proof -
  let ?es = "map (classify (arity k)) pool"
  let ?P = "\<lambda>e. hit atom_type_dict k topo_element (topo_attrib e)"
  have nth: "\<And>j. j < length pool \<Longrightarrow> topo_attrib (?es ! j) = attrib (pool ! j)
        \<and> weight (?es ! j) = class_count (arity k) (attrib (pool ! j))"
    by (simp add: classify_char)
  have a: "i < length ?es" using i(1) by simp
  have b: "?P (?es ! i)" using i nth hit_could_match[OF len] by simp
  have c: "\<forall>j<length ?es. ?P (?es ! j) \<longrightarrow>
      weight (?es ! i) < weight (?es ! j) \<or> (weight (?es ! i) = weight (?es ! j) \<and> i \<le> j)"
  proof (intro allI impI)
    fix j assume j: "j < length ?es" "?P (?es ! j)"
    then have "j < length pool" "could_match atom_type_dict k topo_element (attrib (pool ! j))"
      using nth hit_could_match[OF len] by simp_all
    then show "weight (?es ! i) < weight (?es ! j) \<or> (weight (?es ! i) = weight (?es ! j) \<and> i \<le> j)"
      using best nth i(1) by simp
  qed
  have f: "find ?P (topo_entries xml_root k (arity k)) = Some (?es ! i)"
    unfolding topo_entries_def topo_entry_temp_def pool[symmetric]
    by (rule find_sort_key_preferred[OF a b c])
  have w: "\<forall>e\<in>set (topo_entries xml_root k (arity k)).
      \<exists>x. e = classify (arity k) x \<and> well_formed_record (arity k) (attrib x)"
    using wf unfolding pool by (rule topo_entries_wf)
  show ?thesis
    unfolding match_element_def entry_loop_pure[OF len at w] f
    using nth[OF i(1)] by simp
qed

lemma key_simps:
  "class_key 1 = ''class1''" "class_key 2 = ''class2''" "class_key 3 = ''class3''"
  "class_key 4 = ''class4''"
  "type_key 1 = ''type1''" "type_key 2 = ''type2''" "type_key 3 = ''type3''"
  "type_key 4 = ''type4''" "class_key (Suc 0) = ''class1''" "type_key (Suc 0) = ''type1''"
  by (simp_all add: class_key_def type_key_def str_nat.simps digit_char_def)

lemma positions_simps:
  "[1..<2 + 1] = [1, 2]" "[1..<3 + 1] = [1, 2, 3]" "[1..<4 + 1] = [1, 2, 3, 4]"
  by (simp_all add: upt_rec)

lemma satisfies_simps:
  "satisfies atd topo [a, b] = (constraint_ok atd topo 1 a \<and> constraint_ok atd topo 2 b)"
  "satisfies atd topo [a, b, c] =
     (constraint_ok atd topo 1 a \<and> constraint_ok atd topo 2 b \<and> constraint_ok atd topo 3 c)"
  "satisfies atd topo [a, b, c, d] =
     (constraint_ok atd topo 1 a \<and> constraint_ok atd topo 2 b \<and> constraint_ok atd topo 3 c
      \<and> constraint_ok atd topo 4 d)"
proof -
  have l: "length [a, b] = 2" "length [a, b, c] = 3" "length [a, b, c, d] = 4" by simp_all
  show "satisfies atd topo [a, b] = (constraint_ok atd topo 1 a \<and> constraint_ok atd topo 2 b)"
    unfolding satisfies_def l positions_simps by simp
  show "satisfies atd topo [a, b, c] =
     (constraint_ok atd topo 1 a \<and> constraint_ok atd topo 2 b \<and> constraint_ok atd topo 3 c)"
    unfolding satisfies_def l positions_simps by simp
  show "satisfies atd topo [a, b, c, d] =
     (constraint_ok atd topo 1 a \<and> constraint_ok atd topo 2 b \<and> constraint_ok atd topo 3 c
      \<and> constraint_ok atd topo 4 d)"
    unfolding satisfies_def l positions_simps by simp
qed

lemma well_formed_record_2:
  "well_formed_record 2 topo =
     ((has_key topo ''class1'' \<or> has_key topo ''type1'') \<and> (has_key topo ''class2'' \<or> has_key topo ''type2''))"
  unfolding well_formed_record_def positions_simps by (simp add: key_simps)

lemma class_count_2:
  "class_count 2 topo = (if has_key topo ''class1'' then 1 else 0) + (if has_key topo ''class2'' then 1 else 0)"
  unfolding class_count_def positions_simps by (simp add: key_simps)

lemma collection_of_2:
  "collection_of 2 topo = [lookup topo (schema_key topo 1), lookup topo (schema_key topo 2)]"
  unfolding collection_of_def positions_simps by simp

theorem most_specific_record_selected_witness:
  "match_element [(''t1'', ''c1''), (''t2'', ''c2'')] Bond
     (topo_entries
        (Element ''ForceField'' [] [Element ''HarmonicBondForce'' []
           [Element ''Bond'' [(''class1'', ''c1''), (''class2'', ''c2''), (''k'', ''1'')] [],
            Element ''Bond'' [(''type1'', ''t1''), (''type2'', ''t2''), (''k'', ''2'')] []]])
        Bond (arity Bond))
     \<lparr>unique_collection = [], blank_root = Element ''ForceField'' [] [Element ''HarmonicBondForce'' [] []]\<rparr>
     [''t1'', ''t2'']
   = Inr \<lparr>unique_collection = [[''t1'', ''t2'']],
          blank_root = Element ''ForceField'' [] [Element ''HarmonicBondForce'' []
            [Element ''Bond'' [(''type1'', ''t1''), (''type2'', ''t2''), (''k'', ''2'')] []]]\<rparr>"
proof -
  let ?R2 = "Element ''Bond'' [(''class1'', ''c1''), (''class2'', ''c2''), (''k'', ''1'')] []"
  let ?R1 = "Element ''Bond'' [(''type1'', ''t1''), (''type2'', ''t2''), (''k'', ''2'')] []"
  let ?doc = "Element ''ForceField'' [] [Element ''HarmonicBondForce'' [] [?R2, ?R1]]"
  let ?atd = "[(''t1'', ''c1''), (''t2'', ''c2'')]"
  let ?st = "\<lparr>unique_collection = [], blank_root = Element ''ForceField'' [] [Element ''HarmonicBondForce'' [] []]\<rparr>"
  have len: "length [''t1'', ''t2''] = arity Bond" by simp
  have at: "\<forall>a\<in>set [''t1'', ''t2'']. has_key ?atd a" by (simp add: has_key_def)
  have pool: "[?R2, ?R1] = iter ?doc (topo_tag Bond)" by (simp add: iter_def)
  have wf: "\<forall>x\<in>set [?R2, ?R1]. well_formed_record (arity Bond) (attrib x)"
    by (simp add: well_formed_record_2 has_key_def)
  have i1: "1 < length [?R2, ?R1]" by simp
  have "sym_equiv Bond [''t1'', ''t2''] [''t1'', ''t2''] \<and> satisfies ?atd (attrib ?R1) [''t1'', ''t2'']"
    by (simp add: satisfies_simps constraint_ok_def key_simps)
  then have i2: "could_match ?atd Bond [''t1'', ''t2''] (attrib ([?R2, ?R1] ! 1))"
    unfolding could_match_def by (simp only: nth_Cons_Suc nth_Cons_0 One_nat_def) blast
  have cc: "class_count (arity Bond) (attrib ?R1) = 0" "class_count (arity Bond) (attrib ?R2) = 2"
    by (simp_all add: class_count_2 has_key_def)
  have best: "\<forall>j<length [?R2, ?R1].
      could_match ?atd Bond [''t1'', ''t2''] (attrib ([?R2, ?R1] ! j)) \<longrightarrow>
        class_count (arity Bond) (attrib ([?R2, ?R1] ! 1)) < class_count (arity Bond) (attrib ([?R2, ?R1] ! j))
        \<or> (class_count (arity Bond) (attrib ([?R2, ?R1] ! 1)) = class_count (arity Bond) (attrib ([?R2, ?R1] ! j))
            \<and> 1 \<le> j)"
  proof (intro allI impI)
    fix j assume "j < length [?R2, ?R1]"
    then have "j = 0 \<or> j = 1" by auto
    then show "class_count (arity Bond) (attrib ([?R2, ?R1] ! 1)) < class_count (arity Bond) (attrib ([?R2, ?R1] ! j))
        \<or> (class_count (arity Bond) (attrib ([?R2, ?R1] ! 1)) = class_count (arity Bond) (attrib ([?R2, ?R1] ! j))
            \<and> 1 \<le> j)"
      using cc by auto
  qed
  show ?thesis
    unfolding most_specific_record_selected [OF len at pool wf i1 i2 best, of ?st]
    by (simp add: record_match_def collection_of_2 schema_key_def has_key_def key_simps lookup_def
        append_to_section_def dict_to_xml_def)
qed

section \<open>Impropers match under every order of the peripheral atoms\<close>

lemma arity_Improper_4: "arity Improper = 4"
  by simp

text \<open>
  Claim C3. For an improper \<open>(A, B, C, D)\<close> with known atom types and a record that names a
  class or a type at each of its four positions, the loop over the orderings matches the
  record exactly when the record is satisfied by \<open>A\<close> followed by some permutation of
  \<open>(B, C, D)\<close>; and the orderings it tries are the six that keep \<open>A\<close> first.
\<close>

theorem improper_matches_any_peripheral_order:
  assumes at: "\<forall>a\<in>set [A, B, C, D]. has_key atom_type_dict a"
    and wf: "well_formed_record 4 (attrib x)"
  shows "sequence_loop atom_type_dict Improper [A, B, C, D] (classify 4 x) (sequences Improper) (st, True)
       = Inr (if \<exists>p q r. mset [p, q, r] = mset [B, C, D] \<and> satisfies atom_type_dict (attrib x) [A, p, q, r]
              then (record_match Improper (collection_of 4 (attrib x)) (attrib x) st, False)
              else (st, True))
     \<and> map (reorder [A, B, C, D]) (sequences Improper)
       = [Inr [A, B, C, D], Inr [A, B, D, C], Inr [A, C, B, D],
          Inr [A, C, D, B], Inr [A, D, B, C], Inr [A, D, C, B]]"
proof -
  have len: "length [A, B, C, D] = arity Improper" by simp
  have wf': "well_formed_record (arity Improper) (attrib x)" using wf by simp
  have "hit atom_type_dict Improper [A, B, C, D] (attrib x)
      = (\<exists>p q r. mset [p, q, r] = mset [B, C, D] \<and> satisfies atom_type_dict (attrib x) [A, p, q, r])"
  proof
    assume "hit atom_type_dict Improper [A, B, C, D] (attrib x)"
    then obtain u where u: "sym_equiv Improper [A, B, C, D] u" "satisfies atom_type_dict (attrib x) u"
      unfolding hit_could_match[OF len] could_match_def by blast
    from u(1) have t: "take 1 u = [A]" and m: "mset (drop 1 u) = mset [B, C, D]" by simp_all
    from m have "length (drop 1 u) = 3" using mset_eq_length by fastforce
    then obtain p q r where pqr: "drop 1 u = [p, q, r]" using len3[of "drop 1 u"] by blast
    with t have "u = [A, p, q, r]" by (cases u) auto
    with u(2) m pqr
    show "\<exists>p q r. mset [p, q, r] = mset [B, C, D] \<and> satisfies atom_type_dict (attrib x) [A, p, q, r]"
      by auto
  next
    assume "\<exists>p q r. mset [p, q, r] = mset [B, C, D] \<and> satisfies atom_type_dict (attrib x) [A, p, q, r]"
    then obtain p q r where "mset [p, q, r] = mset [B, C, D]"
      "satisfies atom_type_dict (attrib x) [A, p, q, r]" by blast
    then have "sym_equiv Improper [A, B, C, D] [A, p, q, r] \<and> satisfies atom_type_dict (attrib x) [A, p, q, r]"
      by simp
    then show "hit atom_type_dict Improper [A, B, C, D] (attrib x)"
      unfolding hit_could_match[OF len] could_match_def by blast
  qed
  then have "sequence_loop atom_type_dict Improper [A, B, C, D] (classify 4 x) (sequences Improper) (st, True)
       = Inr (if \<exists>p q r. mset [p, q, r] = mset [B, C, D] \<and> satisfies atom_type_dict (attrib x) [A, p, q, r]
              then (record_match Improper (collection_of 4 (attrib x)) (attrib x) st, False)
              else (st, True))"
    using sequence_loop_pure[OF len at wf' subset_refl, of st True]
    unfolding hit_def arity_Improper_4 by simp
  then show ?thesis using orderings_Improper[of A B C D] by (rule conjI)
qed

lemma well_formed_record_4:
  "well_formed_record 4 topo =
     ((has_key topo ''class1'' \<or> has_key topo ''type1'') \<and> (has_key topo ''class2'' \<or> has_key topo ''type2'')
      \<and> (has_key topo ''class3'' \<or> has_key topo ''type3'') \<and> (has_key topo ''class4'' \<or> has_key topo ''type4''))"
  unfolding well_formed_record_def positions_simps by (simp add: key_simps)

lemma collection_of_4:
  "collection_of 4 topo = [lookup topo (schema_key topo 1), lookup topo (schema_key topo 2),
                           lookup topo (schema_key topo 3), lookup topo (schema_key topo 4)]"
  unfolding collection_of_def positions_simps by simp

theorem improper_matches_any_peripheral_order_witness:
  "sequence_loop [(''A'', ''cA''), (''B'', ''cB''), (''C'', ''cC''), (''D'', ''cD'')] Improper
     [''A'', ''B'', ''C'', ''D'']
     (classify 4 (Element ''Improper''
        [(''type1'', ''A''), (''type2'', ''D''), (''type3'', ''B''), (''type4'', ''C'')] []))
     (sequences Improper)
     (\<lparr>unique_collection = [],
       blank_root = Element ''ForceField'' [] [Element ''PeriodicTorsionForce'' [] []]\<rparr>, True)
   = Inr (\<lparr>unique_collection = [[''A'', ''D'', ''B'', ''C'']],
           blank_root = Element ''ForceField'' [] [Element ''PeriodicTorsionForce'' []
             [Element ''Improper''
                [(''type1'', ''A''), (''type2'', ''D''), (''type3'', ''B''), (''type4'', ''C'')] []]]\<rparr>,
          False)"
proof -
  let ?atd = "[(''A'', ''cA''), (''B'', ''cB''), (''C'', ''cC''), (''D'', ''cD'')]"
  let ?x = "Element ''Improper''
        [(''type1'', ''A''), (''type2'', ''D''), (''type3'', ''B''), (''type4'', ''C'')] []"
  have at: "\<forall>a\<in>set [''A'', ''B'', ''C'', ''D'']. has_key ?atd a" by (simp add: has_key_def)
  have wf: "well_formed_record 4 (attrib ?x)" by (simp add: well_formed_record_4 has_key_def)
  have "mset [''D'', ''B'', ''C''] = mset [''B'', ''C'', ''D'']
      \<and> satisfies ?atd (attrib ?x) [''A'', ''D'', ''B'', ''C'']"
    unfolding m3 by (simp add: satisfies_simps constraint_ok_def key_simps)
  then have ex: "\<exists>p q r. mset [p, q, r] = mset [''B'', ''C'', ''D'']
      \<and> satisfies ?atd (attrib ?x) [''A'', p, q, r]" by blast
  show ?thesis
    unfolding improper_matches_any_peripheral_order [OF at wf, THEN conjunct1] if_P[OF ex]
    by (simp add: record_match_def collection_of_4 schema_key_def has_key_def key_simps lookup_def
        append_to_section_def dict_to_xml_def)
qed

section \<open>A record is emitted at most once\<close>

lemma emitted_once_record_match:
  assumes "emitted_once k n blank pool st" "topo \<in> pool"
  shows "emitted_once k n blank pool (record_match k (kind_collection k n topo) topo st)"
proof -
  from assms(1) obtain em where em: "unique_collection st = map (kind_collection k n) em"
    "distinct (unique_collection st)" "set em \<subseteq> pool" "blank_root st = emit_all k em blank"
    unfolding emitted_once_def by blast
  show ?thesis
  proof (cases "kind_collection k n topo \<in> set (unique_collection st)")
    case True
    then show ?thesis using assms(1) by (simp add: record_match_def)
  next
    case False
    have "unique_collection st @ [kind_collection k n topo] = map (kind_collection k n) (em @ [topo])"
      using em(1) by simp
    moreover have "distinct (unique_collection st @ [kind_collection k n topo])"
      using em(2) False by simp
    moreover have "set (em @ [topo]) \<subseteq> pool" using em(3) assms(2) by simp
    moreover have "append_to_section (xml_section k) (dict_to_xml (topo_tag k) topo) (blank_root st)
        = emit_all k (em @ [topo]) blank"
      using em(4) by (simp add: emit_all_def)
    moreover have "record_match k (kind_collection k n topo) topo st
        = st\<lparr>unique_collection := unique_collection st @ [kind_collection k n topo],
             blank_root := append_to_section (xml_section k) (dict_to_xml (topo_tag k) topo)
                             (blank_root st)\<rparr>"
      using False by (simp add: record_match_def)
    ultimately show ?thesis
      unfolding emitted_once_def by (intro exI[of _ "em @ [topo]"]) (simp del: map_append)
  qed
qed

lemma reorder_length: "reorder xs is = Inr ys \<Longrightarrow> length ys = length is"
  by (induction "is" arbitrary: ys) (auto split: if_splits sum.splits)

lemma sequence_loop_emitted_once:
  "sequence_loop atd k el (classify n x) seqs (st, nm) = Inr (st', nm') \<Longrightarrow>
   set seqs \<subseteq> set (sequences k) \<Longrightarrow> attrib x \<in> pool \<Longrightarrow>
   emitted_once k n blank pool st \<Longrightarrow> emitted_once k n blank pool st'"
proof (induction seqs arbitrary: st nm)
  case Nil
  then show ?case by simp
next
  case (Cons s rest)
  have s: "s \<in> set (sequences k)" and rest: "set rest \<subseteq> set (sequences k)"
    using Cons.prems(2) by auto
  show ?case
  proof (cases nm)
    case False
    then have "sequence_loop atd k el (classify n x) rest (st, nm) = Inr (st', nm')"
      using Cons.prems(1) by simp
    from Cons.IH[OF this rest Cons.prems(3,4)] show ?thesis .
  next
    case True
    from Cons.prems(1) True obtain seq_test m c where
      r: "reorder el s = Inr seq_test"
      and p: "position_loop atd (attrib x) (map (schema_key (attrib x)) [1..<n + 1]) 0 seq_test [] []
                = Inr (m, c)"
      by (auto simp: classify_char split: sum.splits)
    have "length seq_test = arity k" using reorder_length[OF r] sequences_length[OF s] by simp
    then have c: "c = kind_collection k n (attrib x)"
      using position_loop_collection[OF p] by (simp add: kind_collection_def)
    show ?thesis
    proof (cases "list_all id m")
      case False
      then have "sequence_loop atd k el (classify n x) rest (st, nm) = Inr (st', nm')"
        using Cons.prems(1) True r p by (simp add: classify_char)
      from Cons.IH[OF this rest Cons.prems(3,4)] show ?thesis .
    next
      case all: True
      then have "sequence_loop atd k el (classify n x) rest
          (record_match k (kind_collection k n (attrib x)) (attrib x) st, False) = Inr (st', nm')"
        using Cons.prems(1) True r p c by (simp add: classify_char)
      from Cons.IH[OF this rest Cons.prems(3) emitted_once_record_match[OF Cons.prems(4,3)]]
      show ?thesis .
    qed
  qed
qed

lemma entry_loop_emitted_once:
  "entry_loop atd k el es (st, nm) = Inr (st', nm') \<Longrightarrow>
   \<forall>e\<in>set es. \<exists>x. e = classify n x \<and> attrib x \<in> pool \<Longrightarrow>
   emitted_once k n blank pool st \<Longrightarrow> emitted_once k n blank pool st'"
proof (induction es arbitrary: st nm)
  case Nil
  then show ?case by simp
next
  case (Cons e es)
  obtain x where e: "e = classify n x" and x: "attrib x \<in> pool" using Cons.prems(2) by auto
  from Cons.prems(1) obtain st1 nm1 where
    1: "sequence_loop atd k el (classify n x) (sequences k) (st, nm) = Inr (st1, nm1)"
    and 2: "entry_loop atd k el es (st1, nm1) = Inr (st', nm')"
    unfolding e by (auto split: sum.splits)
  have "emitted_once k n blank pool st1"
    by (rule sequence_loop_emitted_once[OF 1 subset_refl x Cons.prems(3)])
  then show ?case using Cons.IH[OF 2] Cons.prems(2) by simp
qed

lemma element_loop_emitted_once:
  "element_loop atd k es els st = Inr st' \<Longrightarrow>
   \<forall>e\<in>set es. \<exists>x. e = classify n x \<and> attrib x \<in> pool \<Longrightarrow>
   emitted_once k n blank pool st \<Longrightarrow> emitted_once k n blank pool st'"
proof (induction els arbitrary: st)
  case Nil
  then show ?case by simp
next
  case (Cons el els)
  from Cons.prems(1) obtain st1 nm1 where
    1: "entry_loop atd k el es (st, True) = Inr (st1, nm1)"
    and 2: "element_loop atd k es els st1 = Inr st'"
    by (auto simp: match_element_def split: sum.splits)
  have "emitted_once k n blank pool st1"
    by (rule entry_loop_emitted_once[OF 1 Cons.prems(2,3)])
  then show ?case using Cons.IH[OF 2 Cons.prems(2)] by simp
qed

lemma emit_all_children:
  "emit_all k em blank =
     Element (tag blank) (attrib blank)
       (map (\<lambda>child. if tag child = xml_section k
                      then Element (tag child) (attrib child)
                             (children child @ map (dict_to_xml (topo_tag k)) em)
                      else child)
            (children blank))"
proof (induction em arbitrary: blank)
  case Nil
  have "map (\<lambda>child. if tag child = xml_section k
                      then Element (tag child) (attrib child)
                             (children child @ map (dict_to_xml (topo_tag k)) [])
                      else child) (children blank) = children blank"
  proof (rule map_idI)
    fix child :: xml
    show "(if tag child = xml_section k
           then Element (tag child) (attrib child)
                  (children child @ map (dict_to_xml (topo_tag k)) [])
           else child) = child"
      by (cases child) simp
  qed
  then show ?case unfolding emit_all_def by (cases blank) simp
next
  case (Cons topo em)
  have "emit_all k (topo # em) blank
      = emit_all k em (append_to_section (xml_section k) (dict_to_xml (topo_tag k) topo) blank)"
    by (simp add: emit_all_def)
  also have "\<dots> = Element (tag blank) (attrib blank)
       (map (\<lambda>child. if tag child = xml_section k
                      then Element (tag child) (attrib child)
                             (children child @ map (dict_to_xml (topo_tag k)) (topo # em))
                      else child)
            (children blank))"
    unfolding Cons.IH by (simp add: append_to_section_def)
  finally show ?case .
qed

text \<open>
  Claim C5. When the matcher returns for one kind, the output document is the given one
  with a list of candidate records appended to the child of the root that carries the
  kind's section tag, and no record occurs twice in that list: a record is emitted at most
  once, whichever ordering matched it and however many interactions it matches.
\<close>

theorem record_emitted_at_most_once:
  assumes "topology_match atom_type_dict typed_topo xml_root blank k n_params = Inr doc"
  shows "\<exists>em. distinct em
      \<and> set em \<subseteq> attrib ` set (iter xml_root (topo_tag k))
      \<and> doc = Element (tag blank) (attrib blank)
                (map (\<lambda>child. if tag child = xml_section k
                               then Element (tag child) (attrib child)
                                      (children child @ map (dict_to_xml (topo_tag k)) em)
                               else child)
                     (children blank))"
proof -
  let ?pool = "attrib ` set (iter xml_root (topo_tag k))"
  let ?st0 = "\<lparr>unique_collection = [], blank_root = blank\<rparr>"
  from assms obtain els st where
    run: "element_loop atom_type_dict k (topo_entries xml_root k n_params) els ?st0 = Inr st"
    and doc: "doc = blank_root st"
    by (auto simp: topology_match_def split: sum.splits)
  have es: "\<forall>e\<in>set (topo_entries xml_root k n_params). \<exists>x. e = classify n_params x \<and> attrib x \<in> ?pool"
    by (auto simp: topo_entries_def topo_entry_temp_def)
  have "emitted_once k n_params blank ?pool ?st0"
    unfolding emitted_once_def by (intro exI[of _ "[]"]) (simp add: emit_all_def)
  from element_loop_emitted_once[OF run es this]
  obtain em where em: "unique_collection st = map (kind_collection k n_params) em"
    "distinct (unique_collection st)" "set em \<subseteq> ?pool" "blank_root st = emit_all k em blank"
    unfolding emitted_once_def by blast
  have "distinct em" using em(1,2) by (simp add: distinct_map)
  then show ?thesis using em(3,4) doc unfolding emit_all_children by blast
qed

lemma classify_2:
  "classify 2 x = \<lparr>schema = [schema_key (attrib x) 1, schema_key (attrib x) 2],
                   weight = class_count 2 (attrib x), topo_attrib = attrib x\<rparr>"
  unfolding classify_char positions_simps by simp

theorem record_emitted_at_most_once_witness:
  "topology_match [(''t1'', ''c1''), (''t2'', ''c2''), (''t3'', ''c1'')]
     \<lparr>atoms = [''t1'', ''t2'', ''t3''], bonds = [[''t1'', ''t2''], [''t3'', ''t2'']],
      angles = [], rb_torsions = [], impropers = []\<rparr>
     (Element ''ForceField'' [] [Element ''HarmonicBondForce'' []
        [Element ''Bond'' [(''class1'', ''c1''), (''class2'', ''c2''), (''k'', ''1'')] []]])
     (Element ''ForceField'' [] [Element ''HarmonicBondForce'' [] []]) Bond 2
   = Inr (Element ''ForceField'' [] [Element ''HarmonicBondForce'' []
        [Element ''Bond'' [(''class1'', ''c1''), (''class2'', ''c2''), (''k'', ''1'')] []]])
   \<and> (\<exists>em. distinct em
      \<and> set em \<subseteq> attrib ` set (iter
           (Element ''ForceField'' [] [Element ''HarmonicBondForce'' []
              [Element ''Bond'' [(''class1'', ''c1''), (''class2'', ''c2''), (''k'', ''1'')] []]])
           (topo_tag Bond))
      \<and> Element ''ForceField'' [] [Element ''HarmonicBondForce'' []
           [Element ''Bond'' [(''class1'', ''c1''), (''class2'', ''c2''), (''k'', ''1'')] []]]
        = Element (tag (Element ''ForceField'' [] [Element ''HarmonicBondForce'' [] []]))
            (attrib (Element ''ForceField'' [] [Element ''HarmonicBondForce'' [] []]))
            (map (\<lambda>child. if tag child = xml_section Bond
                           then Element (tag child) (attrib child)
                                  (children child @ map (dict_to_xml (topo_tag Bond)) em)
                           else child)
                 (children (Element ''ForceField'' [] [Element ''HarmonicBondForce'' [] []]))))"
proof -
  let ?atd = "[(''t1'', ''c1''), (''t2'', ''c2''), (''t3'', ''c1'')]"
  let ?R = "Element ''Bond'' [(''class1'', ''c1''), (''class2'', ''c2''), (''k'', ''1'')] []"
  let ?doc = "Element ''ForceField'' [] [Element ''HarmonicBondForce'' [] [?R]]"
  let ?blank = "Element ''ForceField'' [] [Element ''HarmonicBondForce'' [] []]"
  let ?e = "\<lparr>schema = [''class1'', ''class2''], weight = 2, topo_attrib = [(''class1'', ''c1''), (''class2'', ''c2''), (''k'', ''1'')]\<rparr>"
  let ?st1 = "\<lparr>unique_collection = [[''c1'', ''c2'']], blank_root = ?doc\<rparr>"
  have en: "enumerate_topo Bond 2 [[''t1'', ''t2''], [''t3'', ''t2'']] = Inr [[''t1'', ''t2''], [''t3'', ''t2'']]"
    by (simp add: enumerate_topo_def get_topo_af_def)
  have es: "topo_entries ?doc Bond 2 = [?e]"
    unfolding topo_entries_def topo_entry_temp_def classify_2
    by (simp add: iter_def schema_key_def class_count_2 has_key_def key_simps)
  have m1: "match_element ?atd Bond [?e] \<lparr>unique_collection = [], blank_root = ?blank\<rparr> [''t1'', ''t2'']
      = Inr ?st1"
    by (simp add: match_element_def getitem_def switch_class_type_def record_match_def
        append_to_section_def dict_to_xml_def)
  have m2: "match_element ?atd Bond [?e] ?st1 [''t3'', ''t2''] = Inr ?st1"
    by (simp add: match_element_def getitem_def switch_class_type_def record_match_def
        append_to_section_def dict_to_xml_def)
  have run: "topology_match ?atd
     \<lparr>atoms = [''t1'', ''t2'', ''t3''], bonds = [[''t1'', ''t2''], [''t3'', ''t2'']],
      angles = [], rb_torsions = [], impropers = []\<rparr> ?doc ?blank Bond 2 = Inr ?doc"
    unfolding topology_match_def by (simp add: en es m1 m2)
  show ?thesis
    using run record_emitted_at_most_once [OF run] by (rule conjI)
qed

section \<open>A record with a missing attribute\<close>

lemma position_loop_Inr_keys:
  "position_loop atd topo sch i seq_test m c = Inr r \<Longrightarrow>
     \<forall>key\<in>set (take (length seq_test) (drop i sch)). has_key topo key"
proof (induction seq_test arbitrary: i m c)
  case Nil
  then show ?case by simp
next
  case (Cons a rest)
  have i: "i < length sch" using Cons.prems by (auto split: if_splits)
  have d: "drop i sch = sch ! i # drop (i + 1) sch" using i by (simp add: Cons_nth_drop_Suc)
  from Cons.prems i obtain v cls where v: "getitem topo (sch ! i) = Inr v"
    and r: "position_loop atd topo sch (i + 1) rest
              (m @ [v = switch_class_type (sch ! i) cls a]) (c @ [v]) = Inr r"
    by (auto split: sum.splits)
  have "has_key topo (sch ! i)"
    using v by (auto simp: getitem_def has_key_map_of split: option.splits)
  then show ?case using Cons.IH[OF r] d by simp
qed

lemma position_loop_error_key:
  "position_loop atd topo sch i seq_test m c = Inl e \<Longrightarrow> length seq_test \<le> length sch - i \<Longrightarrow>
     \<exists>key. e = KeyError key"
proof (induction seq_test arbitrary: i m c)
  case Nil
  then show ?case by simp
next
  case (Cons a rest)
  have i: "i < length sch" using Cons.prems(2) by simp
  have l: "length rest \<le> length sch - (i + 1)" using Cons.prems(2) by simp
  from Cons.prems(1) i
  have "(\<exists>d k. getitem d k = Inl e) \<or> (\<exists>m' c'. position_loop atd topo sch (i + 1) rest m' c' = Inl e)"
    by (auto split: sum.splits)
  then show ?case using Cons.IH[OF _ l] getitem_Inl by blast
qed

lemma sequence_loop_matched:
  "sequence_loop atd k el e seqs (st, False) = Inr (st, False)"
  by (induction seqs) simp_all

lemma sequences_nonempty: "\<exists>s rest. sequences k = s # rest"
  by (cases k) simp_all

text \<open>
  Claim C8, amended. For a record that has neither \<^verbatim>\<open>class\<close>\<open>i\<close> nor \<^verbatim>\<open>type\<close>\<open>i\<close> at a position
  \<open>i\<close> of the kind, the classification does not fail: it gives position \<open>i\<close> the key
  \<^verbatim>\<open>type\<close>\<open>i\<close> and counts the class positions. The lookup fails in the matcher: the loop
  over the orderings raises \<^verbatim>\<open>KeyError\<close> when it tests the record against an interaction
  not matched yet, and does nothing for an interaction already matched.
\<close>

theorem malformed_record_raises_when_tested:
  assumes i: "1 \<le> i" "i \<le> arity k"
    and missing: "\<not> has_key (attrib x) (class_key i)" "\<not> has_key (attrib x) (type_key i)"
    and len: "length topo_element = arity k"
  shows "fst (identify_schema (attrib x) (arity k)) ! (i - 1) = type_key i
     \<and> snd (identify_schema (attrib x) (arity k)) = class_count (arity k) (attrib x)
     \<and> (\<exists>key. sequence_loop atom_type_dict k topo_element (classify (arity k) x) (sequences k) (st, True)
                 = Inl (KeyError key))
     \<and> sequence_loop atom_type_dict k topo_element (classify (arity k) x) (sequences k) (st, False)
         = Inr (st, False)"
proof -
  let ?sch = "map (schema_key (attrib x)) [1..<arity k + 1]"
  have n: "?sch ! (i - 1) = schema_key (attrib x) i"
    using i by (simp add: nth_map_upt del: upt_Suc)
  have sk: "schema_key (attrib x) i = type_key i" using missing(1) by (simp add: schema_key_def)
  have a: "fst (identify_schema (attrib x) (arity k)) ! (i - 1) = type_key i"
    unfolding identify_schema_char fst_conv n sk ..
  have b: "snd (identify_schema (attrib x) (arity k)) = class_count (arity k) (attrib x)"
    by (simp add: identify_schema_char class_count_def)
  obtain s rest where sq: "sequences k = s # rest" using sequences_nonempty by blast
  then have s: "s \<in> set (sequences k)" by simp
  have r: "reorder topo_element s = Inr (map ((!) topo_element) s)"
    by (rule reorder_sequences[OF len s])
  have l: "length (map ((!) topo_element) s) = arity k" using sequences_length[OF s] by simp
  have bad: "?sch ! (i - 1) \<in> set (take (length (map ((!) topo_element) s)) (drop 0 ?sch))"
    unfolding l using i by (simp del: upt_Suc)
  have "\<exists>key. position_loop atom_type_dict (attrib x) ?sch 0 (map ((!) topo_element) s) [] []
        = Inl (KeyError key)"
  proof (cases "position_loop atom_type_dict (attrib x) ?sch 0 (map ((!) topo_element) s) [] []")
    case (Inl e)
    then show ?thesis using position_loop_error_key[OF Inl] l by simp
  next
    case (Inr p)
    from position_loop_Inr_keys[OF Inr] bad have "has_key (attrib x) (?sch ! (i - 1))" by blast
    then show ?thesis using missing(2) unfolding n sk by simp
  qed
  then obtain key where
    "position_loop atom_type_dict (attrib x) ?sch 0 (map ((!) topo_element) s) [] [] = Inl (KeyError key)"
    by blast
  then have c: "sequence_loop atom_type_dict k topo_element (classify (arity k) x) (sequences k) (st, True)
      = Inl (KeyError key)"
    unfolding sq using r by (simp add: classify_char)
  show ?thesis using a b c sequence_loop_matched by blast
qed

lemma identify_schema_2:
  "identify_schema topo 2 = ([schema_key topo 1, schema_key topo 2], class_count 2 topo)"
  unfolding identify_schema_char class_count_def positions_simps by simp

text \<open>
  Claim C8, as stated, fails. A record with \<^verbatim>\<open>type1\<close> only is classified without failure;
  with no bond in the structure, and with a bond that an earlier record matches, the matcher
  returns without raising anything.
\<close>

theorem classification_never_fails_counterexample:
  "identify_schema [(''type1'', ''t1''), (''k'', ''1'')] 2 = ([''type1'', ''type2''], 0)
   \<and> topology_match [(''t1'', ''c1''), (''t2'', ''c2'')]
       \<lparr>atoms = [''t1'', ''t2''], bonds = [], angles = [], rb_torsions = [], impropers = []\<rparr>
       (Element ''ForceField'' [] [Element ''HarmonicBondForce'' []
          [Element ''Bond'' [(''type1'', ''t1''), (''k'', ''1'')] []]])
       (Element ''ForceField'' [] [Element ''HarmonicBondForce'' [] []]) Bond 2
     = Inr (Element ''ForceField'' [] [Element ''HarmonicBondForce'' [] []])
   \<and> topology_match [(''t1'', ''c1''), (''t2'', ''c2'')]
       \<lparr>atoms = [''t1'', ''t2''], bonds = [[''t1'', ''t2'']], angles = [], rb_torsions = [],
        impropers = []\<rparr>
       (Element ''ForceField'' [] [Element ''HarmonicBondForce'' []
          [Element ''Bond'' [(''type1'', ''t1''), (''type2'', ''t2''), (''k'', ''2'')] [],
           Element ''Bond'' [(''type1'', ''t1''), (''k'', ''1'')] []]])
       (Element ''ForceField'' [] [Element ''HarmonicBondForce'' [] []]) Bond 2
     = Inr (Element ''ForceField'' [] [Element ''HarmonicBondForce'' []
          [Element ''Bond'' [(''type1'', ''t1''), (''type2'', ''t2''), (''k'', ''2'')] []]])"
proof -
  let ?atd = "[(''t1'', ''c1''), (''t2'', ''c2'')]"
  let ?blank = "Element ''ForceField'' [] [Element ''HarmonicBondForce'' [] []]"
  let ?M = "Element ''Bond'' [(''type1'', ''t1''), (''k'', ''1'')] []"
  let ?G = "Element ''Bond'' [(''type1'', ''t1''), (''type2'', ''t2''), (''k'', ''2'')] []"
  let ?eM = "\<lparr>schema = [''type1'', ''type2''], weight = 0,
              topo_attrib = [(''type1'', ''t1''), (''k'', ''1'')]\<rparr>"
  let ?eG = "\<lparr>schema = [''type1'', ''type2''], weight = 0,
              topo_attrib = [(''type1'', ''t1''), (''type2'', ''t2''), (''k'', ''2'')]\<rparr>"
  have a: "identify_schema [(''type1'', ''t1''), (''k'', ''1'')] 2 = ([''type1'', ''type2''], 0)"
    unfolding identify_schema_2 by (simp add: schema_key_def class_count_2 has_key_def key_simps)
  have b: "topology_match ?atd
       \<lparr>atoms = [''t1'', ''t2''], bonds = [], angles = [], rb_torsions = [], impropers = []\<rparr>
       (Element ''ForceField'' [] [Element ''HarmonicBondForce'' [] [?M]]) ?blank Bond 2 = Inr ?blank"
    by (simp add: topology_match_def enumerate_topo_def)
  have es: "topo_entries (Element ''ForceField'' [] [Element ''HarmonicBondForce'' [] [?G, ?M]]) Bond 2
      = [?eG, ?eM]"
    unfolding topo_entries_def topo_entry_temp_def classify_2
    by (simp add: iter_def schema_key_def class_count_2 has_key_def key_simps)
  have en: "enumerate_topo Bond 2 [[''t1'', ''t2'']] = Inr [[''t1'', ''t2'']]"
    by (simp add: enumerate_topo_def get_topo_af_def)
  have m: "match_element ?atd Bond [?eG, ?eM] \<lparr>unique_collection = [], blank_root = ?blank\<rparr>
        [''t1'', ''t2'']
      = Inr \<lparr>unique_collection = [[''t1'', ''t2'']],
             blank_root = Element ''ForceField'' [] [Element ''HarmonicBondForce'' [] [?G]]\<rparr>"
    by (simp add: match_element_def getitem_def switch_class_type_def record_match_def
        append_to_section_def dict_to_xml_def)
  have c: "topology_match ?atd
       \<lparr>atoms = [''t1'', ''t2''], bonds = [[''t1'', ''t2'']], angles = [], rb_torsions = [],
        impropers = []\<rparr>
       (Element ''ForceField'' [] [Element ''HarmonicBondForce'' [] [?G, ?M]]) ?blank Bond 2
     = Inr (Element ''ForceField'' [] [Element ''HarmonicBondForce'' [] [?G]])"
    unfolding topology_match_def by (simp add: en es m)
  show ?thesis using a b c by blast
qed

theorem malformed_record_raises_when_tested_witness:
  "fst (identify_schema (attrib (Element ''Bond'' [(''type1'', ''t1''), (''k'', ''1'')] [])) (arity Bond))
      ! (2 - 1) = type_key 2
   \<and> sequence_loop [(''t1'', ''c1''), (''t2'', ''c2'')] Bond [''t1'', ''t2'']
       (classify (arity Bond) (Element ''Bond'' [(''type1'', ''t1''), (''k'', ''1'')] []))
       (sequences Bond)
       (\<lparr>unique_collection = [],
         blank_root = Element ''ForceField'' [] [Element ''HarmonicBondForce'' [] []]\<rparr>, True)
     = Inl (KeyError ''type2'')"
proof -
  let ?M = "Element ''Bond'' [(''type1'', ''t1''), (''k'', ''1'')] []"
  have i: "1 \<le> (2::nat)" "2 \<le> arity Bond" by simp_all
  have missing: "\<not> has_key (attrib ?M) (class_key 2)" "\<not> has_key (attrib ?M) (type_key 2)"
    by (simp_all add: has_key_def key_simps)
  have len: "length [''t1'', ''t2''] = arity Bond" by simp
  have run: "sequence_loop [(''t1'', ''c1''), (''t2'', ''c2'')] Bond [''t1'', ''t2'']
       (classify (arity Bond) ?M) (sequences Bond)
       (\<lparr>unique_collection = [],
         blank_root = Element ''ForceField'' [] [Element ''HarmonicBondForce'' [] []]\<rparr>, True)
     = Inl (KeyError ''type2'')"
    unfolding arity.simps classify_2
    by (simp add: schema_key_def class_count_2 has_key_def key_simps getitem_def switch_class_type_def)
  show ?thesis
    using malformed_record_raises_when_tested [OF i missing len, THEN conjunct1] run
    by (rule conjI)
qed

end
